theory Spec2Isabelle
  imports Complex_Main "HOL-Library.Word" "HOL-Library.Sublist" "HOL-Library.Multiset"
begin

section \<open>Go strings and the library functions the code calls\<close>

text \<open>
  A Go string is a sequence of bytes, and so is \<^typ>\<open>string\<close>: \<open>len\<close> is
  \<^const>\<open>length\<close>, \<open>s[:n]\<close> is \<^const>\<open>take\<close>, \<open>+\<close> is \<open>@\<close>.
  \<open>strings.ToLower\<close> and \<open>strings.Fields\<close> read the bytes as UTF-8 when one of them
  is above 127, and have a path of their own for ASCII-only strings; both paths are
  modelled. A code point (Go's \<open>rune\<close>) is a natural number.
\<close>

definition isASCII :: "string \<Rightarrow> bool" where
  "isASCII s = list_all (\<lambda>c. (of_char c :: nat) < 128) s"

definition isUpper :: "char \<Rightarrow> bool" where
  "isUpper c = (65 \<le> (of_char c :: nat) \<and> (of_char c :: nat) \<le> 90)"

definition toLowerByte :: "char \<Rightarrow> char" where
  "toLowerByte c = (if isUpper c then char_of ((of_char c :: nat) + 32) else c)"

text \<open>\<open>utf8.RuneError\<close>, the replacement character.\<close>

definition RuneError :: nat where
  "RuneError = 0xFFFD"

definition inRange :: "nat \<Rightarrow> nat \<Rightarrow> char \<Rightarrow> bool" where
  "inRange lo hi c = (lo \<le> (of_char c :: nat) \<and> (of_char c :: nat) \<le> hi)"

text \<open>The six payload bits of a continuation byte.\<close>

definition low6 :: "char \<Rightarrow> nat" where
  "low6 c = (of_char c :: nat) - 0x80"

text \<open>
  \<open>utf8.DecodeRuneInString\<close>, which is also what \<open>for i, c := range s\<close> reads at \<open>i\<close>: the
  code point and the number of bytes it takes. A byte sequence that is not the shortest
  encoding of a code point outside the surrogates gives \<open>(RuneError, 1)\<close>: the ranges of
  the second byte after \<open>E0\<close>, \<open>ED\<close>, \<open>F0\<close> and \<open>F4\<close> are narrower.
\<close>

fun decodeRune :: "string \<Rightarrow> nat \<times> nat" where
  "decodeRune [] = (RuneError, 0)"
| "decodeRune (c0 # rest) =
     (let b0 = (of_char c0 :: nat) in
      if b0 < 0x80 then (b0, 1)
      else if 0xC2 \<le> b0 \<and> b0 \<le> 0xDF then
        (case rest of
           c1 # _ \<Rightarrow>
             if inRange 0x80 0xBF c1 then ((b0 - 0xC0) * 64 + low6 c1, 2) else (RuneError, 1)
         | _ \<Rightarrow> (RuneError, 1))
      else if 0xE0 \<le> b0 \<and> b0 \<le> 0xEF then
        (case rest of
           c1 # c2 # _ \<Rightarrow>
             if inRange (if b0 = 0xE0 then 0xA0 else 0x80) (if b0 = 0xED then 0x9F else 0xBF) c1
                \<and> inRange 0x80 0xBF c2
             then ((b0 - 0xE0) * 4096 + low6 c1 * 64 + low6 c2, 3)
             else (RuneError, 1)
         | _ \<Rightarrow> (RuneError, 1))
      else if 0xF0 \<le> b0 \<and> b0 \<le> 0xF4 then
        (case rest of
           c1 # c2 # c3 # _ \<Rightarrow>
             if inRange (if b0 = 0xF0 then 0x90 else 0x80) (if b0 = 0xF4 then 0x8F else 0xBF) c1
                \<and> inRange 0x80 0xBF c2 \<and> inRange 0x80 0xBF c3
             then ((b0 - 0xF0) * 262144 + low6 c1 * 4096 + low6 c2 * 64 + low6 c3, 4)
             else (RuneError, 1)
         | _ \<Rightarrow> (RuneError, 1))
      else (RuneError, 1))"

text \<open>
  \<open>utf8.AppendRune\<close> (what \<open>Builder.WriteRune\<close> writes): a surrogate or a value above
  \<open>0x10FFFF\<close> is written as \<open>RuneError\<close>.
\<close>

definition encodeRune :: "nat \<Rightarrow> string" where
  "encodeRune r =
     (if r \<le> 0x7F then [char_of r]
      else if r \<le> 0x7FF then [char_of (0xC0 + r div 64), char_of (0x80 + r mod 64)]
      else if r > 0x10FFFF \<or> (0xD800 \<le> r \<and> r \<le> 0xDFFF) then [CHR 0xEF, CHR 0xBF, CHR 0xBD]
      else if r \<le> 0xFFFF then
        [char_of (0xE0 + r div 4096), char_of (0x80 + (r div 64) mod 64), char_of (0x80 + r mod 64)]
      else
        [char_of (0xF0 + r div 262144), char_of (0x80 + (r div 4096) mod 64),
         char_of (0x80 + (r div 64) mod 64), char_of (0x80 + r mod 64)])"

text \<open>
  \<open>strings.Map(mapping, s)\<close> for a mapping that returns no negative value: each code point
  of \<open>s\<close> (\<open>RuneError\<close> for a byte that starts no encoding) is replaced by its image,
  encoded. The size of a code point is at least 1, so the rest starts \<open>size - 1\<close> bytes
  after the first.
\<close>

fun Map :: "(nat \<Rightarrow> nat) \<Rightarrow> string \<Rightarrow> string" where
  "Map mapping [] = []"
| "Map mapping (c # cs) =
     encodeRune (mapping (fst (decodeRune (c # cs))))
     @ Map mapping (drop (snd (decodeRune (c # cs)) - 1) cs)"

text \<open>
  \<open>unicode.ToLower\<close>: the letters \<open>'A'..'Z'\<close> are moved by \<open>'a' - 'A'\<close>, the other ASCII
  code points are kept, and a code point above 127 is looked up in the case tables of the
  Unicode database (\<open>unicode.CaseRanges\<close>). The tables are data of the Go library:
  \<open>caseTable\<close>, the lower-case mapping they give, is a parameter.
\<close>

definition unicodeToLower :: "(nat \<Rightarrow> nat) \<Rightarrow> nat \<Rightarrow> nat" where
  "unicodeToLower caseTable r =
     (if r \<le> 0x7F then (if 65 \<le> r \<and> r \<le> 90 then r + 32 else r) else caseTable r)"

text \<open>
  \<open>strings.ToLower\<close>: byte by byte when the string is ASCII-only, \<open>Map(unicode.ToLower, s)\<close>
  otherwise.
\<close>

definition ToLower :: "(nat \<Rightarrow> nat) \<Rightarrow> string \<Rightarrow> string" where
  "ToLower caseTable s =
     (if isASCII s then map toLowerByte s else Map (unicodeToLower caseTable) s)"

text \<open>The ASCII white space of \<open>strings.Fields\<close>: \<open>\t \n \v \f \r\<close> and the space.\<close>

definition asciiSpace :: "char \<Rightarrow> bool" where
  "asciiSpace c = ((of_char c :: nat) \<in> {9, 10, 11, 12, 13, 32})"

text \<open>
  \<open>unicode.IsSpace\<close>: in Latin-1 the six ASCII ones, \<open>U+0085\<close> and \<open>U+00A0\<close>; above, the
  code points of the property \<open>White_Space\<close>.
\<close>

definition IsSpace :: "nat \<Rightarrow> bool" where
  "IsSpace r =
     (if r \<le> 0xFF then r \<in> {9, 10, 11, 12, 13, 32, 0x85, 0xA0}
      else r = 0x1680 \<or> (0x2000 \<le> r \<and> r \<le> 0x200A) \<or> r = 0x2028 \<or> r = 0x2029
           \<or> r = 0x202F \<or> r = 0x205F \<or> r = 0x3000)"

text \<open>
  \<open>strings.Fields\<close>, ASCII path: one pass over the bytes; \<open>cur\<close> is the field being
  read (the bytes since \<open>fieldStart\<close>), closed by a white-space byte or by the end.
\<close>

fun fieldsFrom :: "string \<Rightarrow> string \<Rightarrow> string list" where
  "fieldsFrom cur [] = (if cur = [] then [] else [cur])"
| "fieldsFrom cur (c # cs) =
     (if asciiSpace c
      then (if cur = [] then fieldsFrom [] cs else cur # fieldsFrom [] cs)
      else fieldsFrom (cur @ [c]) cs)"

text \<open>
  \<open>strings.FieldsFunc(s, unicode.IsSpace)\<close>: the same pass over the code points; a code
  point that is no white space adds all its bytes to the field.
\<close>

fun fieldsFunc :: "string \<Rightarrow> string \<Rightarrow> string list" where
  "fieldsFunc cur [] = (if cur = [] then [] else [cur])"
| "fieldsFunc cur (c # cs) =
     (if IsSpace (fst (decodeRune (c # cs)))
      then (if cur = [] then fieldsFunc [] (drop (snd (decodeRune (c # cs)) - 1) cs)
            else cur # fieldsFunc [] (drop (snd (decodeRune (c # cs)) - 1) cs))
      else fieldsFunc (cur @ c # take (snd (decodeRune (c # cs)) - 1) cs)
             (drop (snd (decodeRune (c # cs)) - 1) cs))"

text \<open>\<open>strings.Fields\<close>: the ASCII path when no byte is above 127, \<open>FieldsFunc\<close> otherwise.\<close>

definition Fields :: "string \<Rightarrow> string list" where
  "Fields s = (if isASCII s then fieldsFrom [] s else fieldsFunc [] s)"

text \<open>
  The code points that have an encoding, and the two properties of the case tables that
  keep \<open>ToLower\<close> from changing a string it has produced: a code point is mapped to a
  code point, and the image of a code point is its own image.
\<close>

definition validRune :: "nat \<Rightarrow> bool" where
  "validRune r = (r \<le> 0x10FFFF \<and> \<not> (0xD800 \<le> r \<and> r \<le> 0xDFFF))"

definition caseTableStable :: "(nat \<Rightarrow> nat) \<Rightarrow> bool" where
  "caseTableStable caseTable =
     (\<forall>r. validRune r \<longrightarrow>
        validRune (unicodeToLower caseTable r)
        \<and> unicodeToLower caseTable (unicodeToLower caseTable r) = unicodeToLower caseTable r)"

text \<open>
  Example data: the part of the case tables for Latin-1, where the capital letters
  \<open>U+00C0..U+00DE\<close> (but the multiplication sign \<open>U+00D7\<close>) are 32 below their small
  letters.
\<close>

definition exampleCaseTable :: "nat \<Rightarrow> nat" where
  "exampleCaseTable r = (if 0xC0 \<le> r \<and> r \<le> 0xDE \<and> r \<noteq> 0xD7 then r + 32 else r)"

text \<open>\<open>strings.Join(elems, sep)\<close>.\<close>

fun Join :: "string list \<Rightarrow> string \<Rightarrow> string" where
  "Join [] sep = []"
| "Join [w] sep = w"
| "Join (w # ws) sep = w @ sep @ Join ws sep"

text \<open>
  \<open>strings.Trim(s, cutset)\<close> for an ASCII cutset (the only use in the code): leading and
  trailing bytes of the cutset are removed.
\<close>

definition Trim :: "string \<Rightarrow> string \<Rightarrow> string" where
  "Trim s cutset =
     rev (dropWhile (\<lambda>c. c \<in> set cutset) (rev (dropWhile (\<lambda>c. c \<in> set cutset) s)))"

text \<open>\<open>strings.Contains(s, substr)\<close>: \<open>substr\<close> occurs in \<open>s\<close> as a contiguous run.\<close>

fun Contains :: "string \<Rightarrow> string \<Rightarrow> bool" where
  "Contains [] substr = (substr = [])"
| "Contains (c # cs) substr = (prefix substr (c # cs) \<or> Contains cs substr)"

text \<open>
  \<open>strings.ReplaceAll(s, old, new)\<close> for a non-empty \<open>old\<close> (the only use in the code):
  the occurrences are found left to right and do not overlap; the scan resumes after each
  replaced occurrence, in the input.
\<close>

function ReplaceAll :: "string \<Rightarrow> string \<Rightarrow> string \<Rightarrow> string" where
  "ReplaceAll [] old new = []"
| "ReplaceAll (c # cs) old new =
     (if old \<noteq> [] \<and> prefix old (c # cs)
      then new @ ReplaceAll (drop (length old) (c # cs)) old new
      else c # ReplaceAll cs old new)"
  by pat_completeness auto
termination
  by (relation "measure (\<lambda>(s, old, new). length s)") (auto simp: neq_Nil_conv)

section \<open>Configuration\<close>

text \<open>
  The fields of \<open>config.Config\<close> the core reads. \<open>SimilarityThreshold\<close> and the scores
  are \<open>float64\<close> in the code; they are reals here (the code only counts, divides two
  small integers and compares). \<open>MaxSearchResults\<close> is a Go \<open>int\<close>.
\<close>

record Config =
  SlackSigningSecret :: string
  TriggerEmoji :: string
  SimilarityThreshold :: real
  MaxSearchResults :: int

text \<open>The defaults of \<open>config.Load\<close>, with a signing secret.\<close>

definition exampleConfig :: Config where
  "exampleConfig =
     \<lparr>SlackSigningSecret = ''secret'', TriggerEmoji = ''eyes'',
      SimilarityThreshold = 7 / 10, MaxSearchResults = 10\<rparr>"

section \<open>Signature gate (handlers.go)\<close>

type_synonym int64 = "64 word"

definition isDigit :: "char \<Rightarrow> bool" where
  "isDigit c = (48 \<le> (of_char c :: nat) \<and> (of_char c :: nat) \<le> 57)"

text \<open>The decimal digits of \<open>strconv.ParseUint\<close>, base 10: any other byte is a syntax error.\<close>

fun parseDigits :: "nat \<Rightarrow> string \<Rightarrow> nat option" where
  "parseDigits n [] = Some n"
| "parseDigits n (c # cs) =
     (if isDigit c then parseDigits (n * 10 + ((of_char c :: nat) - 48)) cs else None)"

text \<open>
  \<open>strconv.ParseInt(s, 10, 64)\<close>: an optional sign, then at least one digit, and a value that
  fits \<open>int64\<close>. \<open>None\<close> is both of Go's errors (\<open>ErrSyntax\<close>, \<open>ErrRange\<close>): the caller only
  tests \<open>err != nil\<close>.
\<close>

definition ParseInt :: "string \<Rightarrow> int64 option" where
  "ParseInt s =
     (case s of
        [] \<Rightarrow> None
      | c # cs \<Rightarrow>
          let neg = (c = CHR ''-'');
              ds = (if c = CHR ''+'' \<or> c = CHR ''-'' then cs else s)
          in if ds = [] then None
             else (case parseDigits 0 ds of
                     None \<Rightarrow> None
                   | Some un \<Rightarrow>
                       if \<not> neg \<and> un \<ge> 2 ^ 63 then None
                       else if neg \<and> un > 2 ^ 63 then None
                       else Some (if neg then - (word_of_nat un) else word_of_nat un)))"

text \<open>
  The request as \<open>verifySlackSignature\<close> reads it. \<open>Header.Get\<close> returns the empty string for
  an absent header, so the two headers are strings. \<open>io.ReadAll(r.Body)\<close> may fail:
  \<open>reqBody\<close> is \<open>None\<close> then.
\<close>

record Request =
  hdrTimestamp :: string
  hdrSignature :: string
  reqBody :: "string option"

text \<open>
  \<open>calculateSignature\<close>. The keyed hash (\<open>crypto/hmac\<close> over \<open>crypto/sha256\<close>, then
  \<open>hex.EncodeToString\<close>) is the library's: \<open>hmacHex key msg\<close> is a parameter.
\<close>

definition calculateSignature ::
  "(string \<Rightarrow> string \<Rightarrow> string) \<Rightarrow> Config \<Rightarrow> string \<Rightarrow> string \<Rightarrow> string" where
  "calculateSignature hmacHex cfg timestamp body =
     (let baseString = ''v0:'' @ timestamp @ '':'' @ body
      in hmacHex (SlackSigningSecret cfg) baseString)"

text \<open>
  \<open>verifySlackSignature\<close>. \<open>now\<close> is \<open>time.Now().Unix()\<close>. The subtraction is Go's \<open>int64\<close>
  subtraction, which wraps; the comparison is signed. \<open>hmac.Equal\<close> is equality of the two
  byte strings (computed in constant time).
\<close>

definition verifySlackSignature ::
  "(string \<Rightarrow> string \<Rightarrow> string) \<Rightarrow> Config \<Rightarrow> int64 \<Rightarrow> Request \<Rightarrow> bool" where
  "verifySlackSignature hmacHex cfg now r =
     (if SlackSigningSecret cfg = [] then False
      else let timestamp = hdrTimestamp r in
        if timestamp = [] then False
        else (case ParseInt timestamp of
                None \<Rightarrow> False
              | Some ts \<Rightarrow>
                  if sint (now - ts) > 300 then False
                  else (case reqBody r of
                          None \<Rightarrow> False
                        | Some body \<Rightarrow>
                            let sig = ''v0='' @ calculateSignature hmacHex cfg timestamp body;
                                receivedSig = hdrSignature r
                            in sig = receivedSig)))"

section \<open>Query sanitization (confluence.go)\<close>

text \<open>
  The list \<open>dangerous\<close> of \<open>sanitizeCQLQuery\<close>, in the order of the source: the three
  operators, each with a space on either side, then the twelve single characters
  (\<open>0x22\<close> is the double quote, \<open>0x27\<close> the single quote, \<open>0x5C\<close> the backslash).
\<close>

definition dangerous :: "string list" where
  "dangerous =
     ['' AND '', '' OR '', '' NOT '',
      ''('', '')'', ''['', '']'', ''{'', ''}'',
      [CHR 0x22], [CHR 0x27], [CHR 0x5C],
      ''~'', ''*'', ''?'']"

text \<open>The loop \<open>for _, char := range dangerous\<close>: one \<open>ReplaceAll\<close> after the other.\<close>

fun replaceEach :: "string list \<Rightarrow> string \<Rightarrow> string" where
  "replaceEach [] sanitized = sanitized"
| "replaceEach (char # rest) sanitized = replaceEach rest (ReplaceAll sanitized char '' '')"

definition sanitizeCQLQuery :: "string \<Rightarrow> string" where
  "sanitizeCQLQuery query =
     (let sanitized = replaceEach dangerous query;
          words = Fields sanitized;
          sanitized = Join words '' ''
      in if length sanitized > 100 then take 100 sanitized else sanitized)"

text \<open>The twelve characters the claim lists.\<close>

definition dangerousChars :: "char set" where
  "dangerousChars = set (''()[]{}~*?'' @ [CHR 0x22, CHR 0x27, CHR 0x5C])"

section \<open>Keyword extraction and scoring (search.go)\<close>

definition stopWords :: "string list" where
  "stopWords =
     [''the'', ''a'', ''an'', ''and'', ''or'', ''but'',
      ''in'', ''on'', ''at'', ''to'', ''for'', ''of'',
      ''with'', ''by'', ''is'', ''are'', ''was'', ''were'',
      ''be'', ''been'', ''have'', ''has'', ''had'', ''do'',
      ''does'', ''did'', ''will'', ''would'', ''should'', ''could'',
      ''how'', ''what'', ''where'', ''when'', ''why'', ''who'']"

text \<open>
  The loop of \<open>extractKeywords\<close> over the words, appending to \<open>keywords\<close>. A word is kept,
  trimmed, when more than two bytes are left and the map \<open>stopWords\<close> does not hold it.
\<close>

fun keywordsLoop :: "string list \<Rightarrow> string list \<Rightarrow> string list" where
  "keywordsLoop [] keywords = keywords"
| "keywordsLoop (word # words) keywords =
     (let cleaned = Trim word ''.,!?;:''
      in if length cleaned > 2 \<and> cleaned \<notin> set stopWords
         then keywordsLoop words (keywords @ [cleaned])
         else keywordsLoop words keywords)"

definition extractKeywords :: "(nat \<Rightarrow> nat) \<Rightarrow> string \<Rightarrow> string list" where
  "extractKeywords caseTable query =
     (let words = Fields (ToLower caseTable query) in keywordsLoop words [])"

text \<open>The loop of \<open>calculateRelevanceScore\<close>: \<open>score += 1.0\<close> for each keyword found.\<close>

fun scoreLoop :: "string \<Rightarrow> string list \<Rightarrow> real \<Rightarrow> real" where
  "scoreLoop content [] score = score"
| "scoreLoop content (keyword # keywords) score =
     scoreLoop content keywords (if Contains content keyword then score + 1 else score)"

definition calculateRelevanceScore :: "(nat \<Rightarrow> nat) \<Rightarrow> string \<Rightarrow> string \<Rightarrow> real" where
  "calculateRelevanceScore caseTable content0 query0 =
     (let content = ToLower caseTable content0;
          query = ToLower caseTable query0;
          keywords = extractKeywords caseTable query;
          score = scoreLoop content keywords 0
      in if length keywords > 0 then score / real (length keywords) else score)"

section \<open>Filtering and ranking (search.go)\<close>

text \<open>
  \<open>storage.SearchResult\<close>, without the bookkeeping columns of \<open>gorm\<close> (\<open>CreatedAt\<close>,
  \<open>UpdatedAt\<close>, \<open>DeletedAt\<close>). \<open>CreatedDate\<close> is a time, kept as Unix seconds.
\<close>

record SearchResult =
  srID :: nat
  srInquiryID :: nat
  Source :: string
  SourceID :: string
  Title :: string
  Content :: string
  URL :: string
  Score :: real
  Author :: string
  CreatedDate :: int

text \<open>The first loop of \<open>filterAndRankResults\<close>: results at or above the threshold are appended.\<close>

fun filterLoop :: "real \<Rightarrow> SearchResult list \<Rightarrow> SearchResult list \<Rightarrow> SearchResult list" where
  "filterLoop threshold [] filtered = filtered"
| "filterLoop threshold (result # results) filtered =
     (if Score result \<ge> threshold
      then filterLoop threshold results (filtered @ [result])
      else filterLoop threshold results filtered)"

text \<open>\<open>filtered[i], filtered[j] = filtered[j], filtered[i]\<close>\<close>

definition swap :: "nat \<Rightarrow> nat \<Rightarrow> 'a list \<Rightarrow> 'a list" where
  "swap i j xs = xs[i := xs ! j, j := xs ! i]"

lemma length_swap [simp]: "length (swap i j xs) = length xs"
  by (simp add: swap_def)

text \<open>
  The inner loop \<open>for j := i + 1; j < len(filtered); j++\<close>, entered at \<open>j\<close>. Both indices
  are below the length where the slice is read.
\<close>

function innerLoop :: "nat \<Rightarrow> nat \<Rightarrow> SearchResult list \<Rightarrow> SearchResult list" where
  "innerLoop i j filtered =
     (if j < length filtered
      then innerLoop i (j + 1)
             (if Score (filtered ! i) < Score (filtered ! j) then swap i j filtered
              else filtered)
      else filtered)"
  by pat_completeness auto
termination
  by (relation "measure (\<lambda>(i, j, filtered). length filtered - j)") auto

declare innerLoop.simps [simp del]

lemma length_innerLoop [simp]: "length (innerLoop i j filtered) = length filtered"
proof (induction i j filtered rule: innerLoop.induct)
  case (1 i j filtered)
  show ?case
  proof (cases "j < length filtered")
    case True
    with 1 show ?thesis by (subst innerLoop.simps) simp
  next
    case False
    then show ?thesis by (subst innerLoop.simps) simp
  qed
qed

text \<open>
  The outer loop \<open>for i := 0; i < len(filtered)-1; i++\<close>, entered at \<open>i\<close>. \<open>len\<close> is a Go
  \<open>int\<close>, so \<open>len(filtered)-1\<close> is \<open>-1\<close> for the empty slice.
\<close>

function outerLoop :: "nat \<Rightarrow> SearchResult list \<Rightarrow> SearchResult list" where
  "outerLoop i filtered =
     (if int i < int (length filtered) - 1
      then outerLoop (i + 1) (innerLoop i (i + 1) filtered)
      else filtered)"
  by pat_completeness auto
termination
  by (relation "measure (\<lambda>(i, filtered). length filtered - i)") auto

declare outerLoop.simps [simp del]

text \<open>
  A Go run-time panic: \<open>filtered[:n]\<close> with a negative \<open>n\<close> is a slice bound out of range.
\<close>

datatype panic = SliceBoundsOutOfRange

definition filterAndRankResults :: "Config \<Rightarrow> SearchResult list \<Rightarrow> panic + SearchResult list" where
  "filterAndRankResults cfg results =
     (let filtered = filterLoop (SimilarityThreshold cfg) results [];
          filtered = outerLoop 0 filtered
      in if int (length filtered) > MaxSearchResults cfg
         then (if MaxSearchResults cfg < 0 then Inl SliceBoundsOutOfRange
               else Inr (take (nat (MaxSearchResults cfg)) filtered))
         else Inr filtered)"

text \<open>Descending order of the scores.\<close>

definition sortedByScoreDesc :: "SearchResult list \<Rightarrow> bool" where
  "sortedByScoreDesc xs = sorted_wrt (\<lambda>a b. Score a \<ge> Score b) xs"

text \<open>
  The invariant of the outer loop: each of the first \<open>i\<close> positions holds a score that
  no later position exceeds.
\<close>

definition dominated :: "nat \<Rightarrow> SearchResult list \<Rightarrow> bool" where
  "dominated i xs =
     (\<forall>a b. a < i \<and> a < b \<and> b < length xs \<longrightarrow> Score (xs ! b) \<le> Score (xs ! a))"

text \<open>Example data: a chat result with the given source id and score.\<close>

definition exampleResult :: "string \<Rightarrow> real \<Rightarrow> SearchResult" where
  "exampleResult sid sc =
     \<lparr>srID = 0, srInquiryID = 1, Source = ''slack'', SourceID = sid, Title = ''Slack Message'',
      Content = ''deploy the service'', URL = [], Score = sc, Author = ''U1'', CreatedDate = 0\<rparr>"

section \<open>The persisted state (models.go)\<close>

text \<open>
  \<open>storage.Inquiry\<close> and \<open>storage.ReactionEvent\<close>, without the bookkeeping columns of
  \<open>gorm\<close>. \<open>ProcessedAt\<close> is a \<open>*time.Time\<close>, kept as optional Unix seconds; \<open>InquiryID\<close>
  is a \<open>*uint\<close>. The fields of \<open>ReactionEvent\<close> that share a name with a field of
  \<open>Inquiry\<close> carry the prefix \<open>ev\<close>.
\<close>

record Inquiry =
  ID :: nat
  MessageID :: string
  ChannelID :: string
  UserID :: string
  MessageText :: string
  Timestamp :: string
  Status :: string
  ProcessedAt :: "int option"
  ResponseSent :: bool
  ResponseText :: string
  ThreadTimestamp :: string

record ReactionEvent =
  evID :: nat
  evMessageID :: string
  evChannelID :: string
  evUserID :: string
  Reaction :: string
  EventType :: string
  evTimestamp :: string
  Processed :: bool
  InquiryID :: "nat option"

text \<open>\<open>services.SlackMessage\<close>\<close>

record SlackMessage =
  smID :: string
  smChannel :: string
  smUser :: string
  smText :: string
  smTimestamp :: string
  smThreadTS :: string

text \<open>
  Go's \<open>error\<close> values: those of the store, those of the collaborators (opaque, with
  their text), the intake error \<open>fmt.Errorf("empty Slack message")\<close>, and
  \<open>fmt.Errorf("...: %w", err)\<close>.
\<close>

datatype error =
    StoreFailure
  | UniqueConstraintFailed
  | RecordNotFound
  | CollaboratorError string
  | EmptySlackMessage
  | Wrapped string error

text \<open>
  The two tables the intake and the orchestrator write, rows in insertion order. (The
  rows of \<open>search_results\<close> are written inside \<open>SearchAll\<close>, which is a collaborator
  here.)
\<close>

record DB =
  inquiries :: "Inquiry list"
  reaction_events :: "ReactionEvent list"

text \<open>The calls to the store whose error the code tests; each may fail in the driver.\<close>

datatype storeCall =
  CreateReactionEventCall | FirstInquiryCall | CreateInquiryCall | GetInquiryByMessageIDCall

text \<open>
  What a run of the pipeline meets outside itself: the chat client, \<open>SearchAll\<close> and
  \<open>GenerateResponse\<close> at their signatures, the clock, and which store calls fail.
\<close>

record Env =
  GetMessage :: "string \<Rightarrow> string \<Rightarrow> error + SlackMessage"
  PostThreadReply :: "string \<Rightarrow> string \<Rightarrow> string \<Rightarrow> error + string"
  SearchAll :: "string \<Rightarrow> nat \<Rightarrow> error + SearchResult list"
  GenerateResponse :: "Inquiry \<Rightarrow> SearchResult list \<Rightarrow> error + string"
  timeNow :: int
  storeFails :: "storeCall \<Rightarrow> bool"

text \<open>The auto-incremented primary key: one more than the largest key of the table.\<close>

definition nextID :: "nat list \<Rightarrow> nat" where
  "nextID ids = Suc (fold max ids 0)"

text \<open>
  \<open>db.Create(inquiry)\<close>: the insert fails in the driver, or on the unique index of
  \<open>message_id\<close>; otherwise the row is stored and the struct receives its key.
\<close>

definition dbCreateInquiry :: "Env \<Rightarrow> DB \<Rightarrow> Inquiry \<Rightarrow> error + (DB \<times> Inquiry)" where
  "dbCreateInquiry env db inquiry =
     (if storeFails env CreateInquiryCall then Inl StoreFailure
      else if MessageID inquiry \<in> set (map MessageID (inquiries db)) then Inl UniqueConstraintFailed
      else let inquiry' = inquiry\<lparr>ID := nextID (map ID (inquiries db))\<rparr>
           in Inr (db\<lparr>inquiries := inquiries db @ [inquiry']\<rparr>, inquiry'))"

text \<open>
  \<open>db.Save(inquiry)\<close> for a struct that has its key: the row of that key is overwritten.
  The code drops the result of every \<open>Save\<close>; the write is taken as applied.
\<close>

definition dbSaveInquiry :: "DB \<Rightarrow> Inquiry \<Rightarrow> DB" where
  "dbSaveInquiry db inquiry =
     db\<lparr>inquiries := map (\<lambda>row. if ID row = ID inquiry then inquiry else row) (inquiries db)\<rparr>"

text \<open>
  \<open>db.Where("message_id = ?", messageID).First(&inquiry)\<close>: the first matching row (the
  unique index leaves at most one), \<open>ErrRecordNotFound\<close> when there is none.
\<close>

definition dbFirstInquiry :: "Env \<Rightarrow> storeCall \<Rightarrow> DB \<Rightarrow> string \<Rightarrow> error + Inquiry" where
  "dbFirstInquiry env call db messageID =
     (if storeFails env call then Inl StoreFailure
      else (case find (\<lambda>row. MessageID row = messageID) (inquiries db) of
              None \<Rightarrow> Inl RecordNotFound
            | Some row \<Rightarrow> Inr row))"

definition dbCreateReactionEvent ::
  "Env \<Rightarrow> DB \<Rightarrow> ReactionEvent \<Rightarrow> error + (DB \<times> ReactionEvent)" where
  "dbCreateReactionEvent env db reactionEvent =
     (if storeFails env CreateReactionEventCall then Inl StoreFailure
      else let reactionEvent' = reactionEvent\<lparr>evID := nextID (map evID (reaction_events db))\<rparr>
           in Inr (db\<lparr>reaction_events := reaction_events db @ [reactionEvent']\<rparr>, reactionEvent'))"

definition dbSaveReactionEvent :: "DB \<Rightarrow> ReactionEvent \<Rightarrow> DB" where
  "dbSaveReactionEvent db reactionEvent =
     db\<lparr>reaction_events :=
          map (\<lambda>row. if evID row = evID reactionEvent then reactionEvent else row)
            (reaction_events db)\<rparr>"

section \<open>The orchestrator and the intake (inquiry service)\<close>

definition newline :: char where
  "newline = CHR 0x0A"

text \<open>The bullet \<open>U+2022\<close> and the robot face \<open>U+1F916\<close>, in UTF-8.\<close>

definition bullet :: string where
  "bullet = [CHR 0xE2, CHR 0x80, CHR 0xA2]"

definition robotFace :: string where
  "robotFace = [CHR 0xF0, CHR 0x9F, CHR 0xA4, CHR 0x96]"

definition noInformationMessage :: string where
  "noInformationMessage =
     ''I couldn'' @ [CHR 0x27] @ ''t find relevant information to answer your inquiry. ''
     @ ''You might want to check our documentation or reach out to the relevant team directly.''"

text \<open>
  The loop of \<open>generateFallbackResponse\<close>, with its index: it stops at \<open>i >= 3\<close>, and before
  that appends the lines of one result to \<open>response\<close>.
\<close>

fun fallbackLoop :: "nat \<Rightarrow> SearchResult list \<Rightarrow> string \<Rightarrow> string" where
  "fallbackLoop i [] response = response"
| "fallbackLoop i (result # rest) response =
     (if i \<ge> 3 then response
      else
        let response = response @ bullet @ '' **'' @ Title result @ ''** ('' @ Source result
                         @ '')'' @ [newline];
            response =
              (if Content result \<noteq> []
               then let content = Content result;
                        content = (if length content > 100 then take 100 content @ ''...''
                                   else content)
                    in response @ ''  '' @ content @ [newline]
               else response);
            response =
              (if URL result \<noteq> [] then response @ ''  '' @ URL result @ [newline]
               else response);
            response = response @ [newline]
        in fallbackLoop (i + 1) rest response)"

definition generateFallbackResponse :: "SearchResult list \<Rightarrow> string" where
  "generateFallbackResponse searchResults =
     (if length searchResults = 0 then noInformationMessage
      else
        let response = ''I found some potentially relevant information:'' @ [newline, newline];
            response = fallbackLoop 0 searchResults response
        in response
           @ ''Please review these resources or contact the relevant team for more specific assistance.'')"

text \<open>
  \<open>sendResponse\<close>: the reply is posted under the original message; on success the thread
  timestamp is stored. It returns the error (if any), the store and the struct.
\<close>

definition sendResponse :: "Env \<Rightarrow> DB \<Rightarrow> Inquiry \<Rightarrow> string \<Rightarrow> error option \<times> DB \<times> Inquiry" where
  "sendResponse env db inquiry response =
     (let formattedResponse =
            robotFace @ '' *AI Assistant Response*'' @ [newline, newline] @ response
      in case PostThreadReply env (ChannelID inquiry) (Timestamp inquiry) formattedResponse of
           Inl err \<Rightarrow> (Some err, db, inquiry)
         | Inr threadTS \<Rightarrow>
             let inquiry = inquiry\<lparr>ThreadTimestamp := threadTS\<rparr>
             in (None, dbSaveInquiry db inquiry, inquiry))"

text \<open>The struct literal at the head of \<open>ProcessInquiry\<close>; the other fields are zero.\<close>

definition newInquiry :: "string \<Rightarrow> string \<Rightarrow> string \<Rightarrow> string \<Rightarrow> string \<Rightarrow> Inquiry" where
  "newInquiry messageID channelID userID messageText timestamp =
     \<lparr>ID = 0, MessageID = messageID, ChannelID = channelID, UserID = userID,
      MessageText = messageText, Timestamp = timestamp, Status = ''pending'',
      ProcessedAt = None, ResponseSent = False, ResponseText = [], ThreadTimestamp = []\<rparr>"

text \<open>\<open>ProcessInquiry\<close> returns its error (\<open>None\<close> is \<open>nil\<close>) and leaves the store changed.\<close>

definition ProcessInquiry ::
  "Env \<Rightarrow> DB \<Rightarrow> string \<Rightarrow> string \<Rightarrow> string \<Rightarrow> string \<Rightarrow> string \<Rightarrow> error option \<times> DB" where
  "ProcessInquiry env db messageID channelID userID messageText timestamp =
     (case dbCreateInquiry env db (newInquiry messageID channelID userID messageText timestamp) of
        Inl err \<Rightarrow> (Some (Wrapped ''failed to create inquiry'' err), db)
      | Inr (db, inquiry) \<Rightarrow>
          let inquiry = inquiry\<lparr>Status := ''processing''\<rparr>;
              db = dbSaveInquiry db inquiry
          in (case SearchAll env messageText (ID inquiry) of
                Inl err \<Rightarrow>
                  let inquiry = inquiry\<lparr>Status := ''failed''\<rparr>;
                      db = dbSaveInquiry db inquiry
                  in (Some (Wrapped ''search failed'' err), db)
              | Inr searchResults \<Rightarrow>
                  (case GenerateResponse env inquiry searchResults of
                     Inl err \<Rightarrow>
                       let fallbackResponse = generateFallbackResponse searchResults;
                           (sendErr, db, inquiry) = sendResponse env db inquiry fallbackResponse;
                           inquiry = inquiry\<lparr>Status := ''failed'', ResponseText := fallbackResponse\<rparr>;
                           db = dbSaveInquiry db inquiry
                       in (Some (Wrapped ''AI response generation failed'' err), db)
                   | Inr response \<Rightarrow>
                       (case sendResponse env db inquiry response of
                          (Some err, db, inquiry) \<Rightarrow>
                            let inquiry = inquiry\<lparr>Status := ''failed'', ResponseText := response\<rparr>;
                                db = dbSaveInquiry db inquiry
                            in (Some (Wrapped ''failed to send response'' err), db)
                        | (None, db, inquiry) \<Rightarrow>
                            let inquiry = inquiry\<lparr>Status := ''completed'',
                                                  ProcessedAt := Some (timeNow env),
                                                  ResponseSent := True,
                                                  ResponseText := response\<rparr>;
                                db = dbSaveInquiry db inquiry
                            in (None, db)))))"

text \<open>\<open>ProcessReactionEvent\<close>, the intake.\<close>

definition ProcessReactionEvent ::
  "Config \<Rightarrow> Env \<Rightarrow> DB \<Rightarrow> string \<Rightarrow> string \<Rightarrow> string \<Rightarrow> string \<Rightarrow> string \<Rightarrow> string
     \<Rightarrow> error option \<times> DB" where
  "ProcessReactionEvent cfg env db messageID channelID userID reaction eventType timestamp =
     (if reaction \<noteq> TriggerEmoji cfg \<or> eventType \<noteq> ''added'' then (None, db)
      else
        let reactionEvent =
              \<lparr>evID = 0, evMessageID = messageID, evChannelID = channelID, evUserID = userID,
               Reaction = reaction, EventType = eventType, evTimestamp = timestamp,
               Processed = False, InquiryID = None\<rparr>
        in case dbCreateReactionEvent env db reactionEvent of
             Inl err \<Rightarrow> (Some err, db)
           | Inr (db, reactionEvent) \<Rightarrow>
               (case dbFirstInquiry env FirstInquiryCall db messageID of
                  Inr existingInquiry \<Rightarrow>
                    let reactionEvent = reactionEvent\<lparr>Processed := True,
                                                       InquiryID := Some (ID existingInquiry)\<rparr>
                    in (None, dbSaveReactionEvent db reactionEvent)
                | Inl notFound \<Rightarrow>
                    (case GetMessage env channelID messageID of
                       Inl err \<Rightarrow> (Some err, db)
                     | Inr slackMessage \<Rightarrow>
                         if smText slackMessage = [] then (Some EmptySlackMessage, db)
                         else
                           (case ProcessInquiry env db messageID channelID (smUser slackMessage)
                                   (smText slackMessage) (smTimestamp slackMessage) of
                              (Some err, db) \<Rightarrow> (Some err, db)
                            | (None, db) \<Rightarrow>
                                (case dbFirstInquiry env GetInquiryByMessageIDCall db messageID of
                                   Inr inquiry \<Rightarrow>
                                     let reactionEvent =
                                           reactionEvent\<lparr>Processed := True,
                                                          InquiryID := Some (ID inquiry)\<rparr>
                                     in (None, dbSaveReactionEvent db reactionEvent)
                                 | Inl err \<Rightarrow> (None, db))))))"

text \<open>
  The fallback text in the words of the specification: the fixed message for no result;
  otherwise a heading, one bullet for each of the first three results, and a closing line.
  A bullet carries the title, the source, the excerpt of the content (its first 100 bytes,
  marked with an ellipsis when cut; no line for an empty content) and the URL when there is
  one.
\<close>

definition excerpt :: "string \<Rightarrow> string" where
  "excerpt content = (if length content > 100 then take 100 content @ ''...'' else content)"

definition bulletOf :: "SearchResult \<Rightarrow> string" where
  "bulletOf result =
     bullet @ '' **'' @ Title result @ ''** ('' @ Source result @ '')'' @ [newline]
     @ (if Content result = [] then [] else ''  '' @ excerpt (Content result) @ [newline])
     @ (if URL result = [] then [] else ''  '' @ URL result @ [newline])
     @ [newline]"

definition fallbackSummary :: "SearchResult list \<Rightarrow> string" where
  "fallbackSummary searchResults =
     (if searchResults = [] then noInformationMessage
      else ''I found some potentially relevant information:'' @ [newline, newline]
           @ concat (map bulletOf (take 3 searchResults))
           @ ''Please review these resources or contact the relevant team for more specific assistance.'')"

text \<open>The struct literal of \<open>ProcessReactionEvent\<close>, with its key.\<close>

definition rawEvent :: "nat \<Rightarrow> string \<Rightarrow> string \<Rightarrow> string \<Rightarrow> string \<Rightarrow> string \<Rightarrow> string \<Rightarrow> ReactionEvent" where
  "rawEvent key messageID channelID userID reaction eventType timestamp =
     \<lparr>evID = key, evMessageID = messageID, evChannelID = channelID, evUserID = userID,
      Reaction = reaction, EventType = eventType, evTimestamp = timestamp,
      Processed = False, InquiryID = None\<rparr>"


text \<open>
  Example data: an empty store; a store that holds the inquiry of message
  \<open>1700000000.000100\<close>; collaborators that find the message, find no evidence, fail to
  generate (rate limit) and fail to deliver; a chat client that returns a message without
  text.
\<close>

definition emptyDB :: DB where
  "emptyDB = \<lparr>inquiries = [], reaction_events = []\<rparr>"

definition exampleDB :: DB where
  "exampleDB =
     \<lparr>inquiries =
        [(newInquiry ''1700000000.000100'' ''C1'' ''U2'' ''How to deploy service''
            ''1700000000.000100'')\<lparr>ID := 1, Status := ''completed''\<rparr>],
      reaction_events = []\<rparr>"

definition exampleEnv :: Env where
  "exampleEnv =
     \<lparr>GetMessage = (\<lambda>channelID messageTS.
        Inr \<lparr>smID = messageTS, smChannel = channelID, smUser = ''U2'',
             smText = ''How to deploy service'', smTimestamp = messageTS, smThreadTS = []\<rparr>),
      PostThreadReply = (\<lambda>channelID threadTS text.
        Inl (CollaboratorError ''failed to post thread reply'')),
      SearchAll = (\<lambda>query inquiryID. Inr []),
      GenerateResponse = (\<lambda>inquiry searchResults. Inl (CollaboratorError ''rate limit exceeded'')),
      timeNow = 1762128000,
      storeFails = (\<lambda>call. False)\<rparr>"

definition emptyMessageEnv :: Env where
  "emptyMessageEnv =
     exampleEnv\<lparr>GetMessage := (\<lambda>channelID messageTS.
        Inr \<lparr>smID = messageTS, smChannel = channelID, smUser = ''U2'',
             smText = [], smTimestamp = messageTS, smThreadTS = []\<rparr>)\<rparr>"

text \<open>The unique index of \<open>inquiries.message_id\<close>.\<close>

definition uniqueMessageIDs :: "DB \<Rightarrow> bool" where
  "uniqueMessageIDs db = distinct (map MessageID (inquiries db))"

section \<open>Evaluation on concrete strings\<close>

lemma char_eq_char_of_iff: "c = char_of (n::nat) \<longleftrightarrow> of_char c = take_bit 8 n"
  using char_of_eq_iff [of n c] by auto

lemmas string_eval =
  Fields_def asciiSpace_def ToLower_def toLowerByte_def isUpper_def Trim_def
  char_of_eq_iff char_eq_char_of_iff isASCII_def
  decodeRune.simps inRange_def low6_def RuneError_def encodeRune_def unicodeToLower_def
  IsSpace_def

section \<open>Properties of the UTF-8 functions\<close>

text \<open>The digits of a code point in base 64, as the encoding splits them.\<close>

lemma digits3:
  fixes r :: nat
  obtains a b c where "r = a * 4096 + b * 64 + c" and "b < 64" and "c < 64"
    and "a = r div 4096" and "b = (r div 64) mod 64" and "c = r mod 64"
proof -
  define q where "q = r div 64"
  define c where "c = r mod 64"
  define a where "a = q div 64"
  define b where "b = q mod 64"
  have 1: "r = q * 64 + c" by (simp add: q_def c_def)
  have 2: "q = a * 64 + b" by (simp add: a_def b_def)
  have 3: "a = r div 4096"
    using div_mult2_eq [of r 64 64] by (simp add: a_def q_def)
  have "r = a * 4096 + b * 64 + c"
    unfolding 1 2 by (simp add: algebra_simps)
  moreover have "b < 64" "c < 64" by (simp_all add: b_def c_def)
  ultimately show ?thesis
    using that [of a b c] 3 by (simp add: b_def c_def q_def)
qed

lemma digits4:
  fixes r :: nat
  obtains a b c d where "r = a * 262144 + b * 4096 + c * 64 + d" and "b < 64" and "c < 64"
    and "d < 64" and "a = r div 262144" and "b = (r div 4096) mod 64"
    and "c = (r div 64) mod 64" and "d = r mod 64"
proof -
  obtain p c d where 1: "r = p * 4096 + c * 64 + d" and cd: "c < 64" "d < 64"
    and p: "p = r div 4096" and c: "c = (r div 64) mod 64" and d: "d = r mod 64"
    by (rule digits3)
  define a where "a = p div 64"
  define b where "b = p mod 64"
  have 2: "p = a * 64 + b" by (simp add: a_def b_def)
  have 3: "a = r div 262144"
    using div_mult2_eq [of r 4096 64] by (simp add: a_def p)
  have "r = a * 262144 + b * 4096 + c * 64 + d"
    unfolding 1 2 by (simp add: algebra_simps)
  moreover have "b < 64" by (simp add: b_def)
  ultimately show ?thesis
    using that [of a b c d] 3 cd c d by (simp add: b_def p)
qed


lemma of_char_char_of_small: "n < 256 \<Longrightarrow> (of_char (char_of (n::nat)) :: nat) = n"
  by simp

lemma decode_encode_1:
  assumes "r \<le> 0x7F"
  shows "decodeRune (encodeRune r @ rest) = (r, 1)"
  using assms by (simp add: encodeRune_def)

lemma decode_encode_2:
  assumes "0x7F < r" and "r \<le> 0x7FF"
  shows "decodeRune (encodeRune r @ rest) = (r, 2)"
proof -
  have d: "r div 64 < 32" "2 \<le> r div 64" using assms by simp_all
  then have b0: "(of_char (char_of (0xC0 + r div 64)) :: nat) = 0xC0 + r div 64"
    by (intro of_char_char_of_small) simp
  have b1: "(of_char (char_of (0x80 + r mod 64)) :: nat) = 0x80 + r mod 64"
    by (intro of_char_char_of_small) simp
  have v: "(0xC0 + r div 64 - 0xC0) * 64 + (0x80 + r mod 64 - 0x80) = r"
    by simp
  show ?thesis
    using assms d v
    by (simp add: encodeRune_def Let_def b0 b1 inRange_def low6_def del: of_char_of)
qed

lemma decode_encode_3:
  assumes "0x7FF < r" and "r \<le> 0xFFFF" and "\<not> (0xD800 \<le> r \<and> r \<le> 0xDFFF)"
  shows "decodeRune (encodeRune r @ rest) = (r, 3)"
proof -
  obtain a b c where r: "r = a * 4096 + b * 64 + c" and bc: "b < 64" "c < 64"
    and d: "a = r div 4096" "b = (r div 64) mod 64" "c = r mod 64"
    by (rule digits3)
  have a: "a < 16" using assms(2) by (simp add: d)
  have lo: "32 \<le> b" if "a = 0"
    using assms(1) bc that unfolding r by simp
  have hi: "b \<le> 31" if "a = 13"
    using assms(2,3) bc that unfolding r by simp
  have b0: "(of_char (char_of (0xE0 + a)) :: nat) = 0xE0 + a"
    using a by (intro of_char_char_of_small) simp
  have b1: "(of_char (char_of (0x80 + b)) :: nat) = 0x80 + b"
    using bc by (intro of_char_char_of_small) simp
  have b2: "(of_char (char_of (0x80 + c)) :: nat) = 0x80 + c"
    using bc by (intro of_char_char_of_small) simp
  have ns: "\<not> (r > 0x10FFFF \<or> (0xD800 \<le> r \<and> r \<le> 0xDFFF))"
    using assms(2,3) by simp
  have e: "encodeRune r = [char_of (0xE0 + a), char_of (0x80 + b), char_of (0x80 + c)]"
    unfolding encodeRune_def d using assms(1,2) ns by (simp only: if_False if_True) simp
  have c1: "inRange (if 0xE0 + a = 0xE0 then 0xA0 else 0x80) (if 0xE0 + a = 0xED then 0x9F else 0xBF)
              (char_of (0x80 + b))"
    using lo hi bc by (simp add: inRange_def b1 del: of_char_of)
  have c2: "inRange 0x80 0xBF (char_of (0x80 + c))"
    using bc by (simp add: inRange_def b2 del: of_char_of)
  have v: "(0xE0 + a - 0xE0) * 4096 + low6 (char_of (0x80 + b)) * 64 + low6 (char_of (0x80 + c)) = r"
    by (simp add: low6_def b1 b2 r del: of_char_of)
  have g: "\<not> (0xE0 + a < 0x80)" "\<not> (0xC2 \<le> 0xE0 + a \<and> 0xE0 + a \<le> 0xDF)"
    "0xE0 \<le> 0xE0 + a \<and> 0xE0 + a \<le> 0xEF"
    using a by simp_all
  show ?thesis
    unfolding e
    by (simp only: append_Cons append_Nil decodeRune.simps Let_def b0 g if_True if_False
          list.case c1 c2 v simp_thms)
qed

lemma decode_encode_4:
  assumes "0xFFFF < r" and "r \<le> 0x10FFFF"
  shows "decodeRune (encodeRune r @ rest) = (r, 4)"
proof -
  obtain a b c d where r: "r = a * 262144 + b * 4096 + c * 64 + d"
    and bcd: "b < 64" "c < 64" "d < 64"
    and dg: "a = r div 262144" "b = (r div 4096) mod 64" "c = (r div 64) mod 64" "d = r mod 64"
    by (rule digits4)
  have a: "a < 5" using assms(2) by (simp add: dg)
  have lo: "16 \<le> b" if "a = 0"
    using assms(1) bcd that unfolding r by simp
  have hi: "b \<le> 15" if "a = 4"
    using assms(2) bcd that unfolding r by simp
  have b0: "(of_char (char_of (0xF0 + a)) :: nat) = 0xF0 + a"
    using a by (intro of_char_char_of_small) simp
  have b1: "(of_char (char_of (0x80 + b)) :: nat) = 0x80 + b"
    using bcd by (intro of_char_char_of_small) simp
  have b2: "(of_char (char_of (0x80 + c)) :: nat) = 0x80 + c"
    using bcd by (intro of_char_char_of_small) simp
  have b3: "(of_char (char_of (0x80 + d)) :: nat) = 0x80 + d"
    using bcd by (intro of_char_char_of_small) simp
  have ns: "\<not> r \<le> 0x7F" "\<not> r \<le> 0x7FF" "\<not> (r > 0x10FFFF \<or> (0xD800 \<le> r \<and> r \<le> 0xDFFF))"
    "\<not> r \<le> 0xFFFF"
    using assms by simp_all
  have e: "encodeRune r = [char_of (0xF0 + a), char_of (0x80 + b), char_of (0x80 + c),
                           char_of (0x80 + d)]"
    unfolding encodeRune_def dg by (simp only: ns if_False)
  have c1: "inRange (if 0xF0 + a = 0xF0 then 0x90 else 0x80) (if 0xF0 + a = 0xF4 then 0x8F else 0xBF)
              (char_of (0x80 + b))"
    using lo hi bcd by (simp add: inRange_def b1 del: of_char_of)
  have c2: "inRange 0x80 0xBF (char_of (0x80 + c))"
    using bcd by (simp add: inRange_def b2 del: of_char_of)
  have c3: "inRange 0x80 0xBF (char_of (0x80 + d))"
    using bcd by (simp add: inRange_def b3 del: of_char_of)
  have v: "(0xF0 + a - 0xF0) * 262144 + low6 (char_of (0x80 + b)) * 4096
             + low6 (char_of (0x80 + c)) * 64 + low6 (char_of (0x80 + d)) = r"
    by (simp add: low6_def b1 b2 b3 r del: of_char_of)
  have g: "\<not> (0xF0 + a < 0x80)" "\<not> (0xC2 \<le> 0xF0 + a \<and> 0xF0 + a \<le> 0xDF)"
    "\<not> (0xE0 \<le> 0xF0 + a \<and> 0xF0 + a \<le> 0xEF)"
    "0xF0 \<le> 0xF0 + a \<and> 0xF0 + a \<le> 0xF4"
    using a by simp_all
  show ?thesis
    unfolding e
    by (simp only: append_Cons append_Nil decodeRune.simps Let_def b0 g if_True if_False
          list.case c1 c2 c3 v simp_thms)
qed

lemma length_encodeRune: "1 \<le> length (encodeRune r)"
  by (simp add: encodeRune_def)

lemma decode_encode:
  assumes "validRune r"
  shows "decodeRune (encodeRune r @ rest) = (r, length (encodeRune r))"
proof -
  consider "r \<le> 0x7F" | "0x7F < r" "r \<le> 0x7FF" | "0x7FF < r" "r \<le> 0xFFFF" | "0xFFFF < r"
    by linarith
  then show ?thesis
  proof cases
    case 1
    moreover from 1 have "length (encodeRune r) = 1" by (simp add: encodeRune_def)
    ultimately show ?thesis by (simp only: decode_encode_1)
  next
    case 2
    moreover from 2 have "length (encodeRune r) = 2" by (simp add: encodeRune_def)
    ultimately show ?thesis by (simp only: decode_encode_2)
  next
    case 3
    with assms have "decodeRune (encodeRune r @ rest) = (r, 3)"
      by (intro decode_encode_3) (simp_all add: validRune_def)
    moreover have "length (encodeRune r) = 3"
      using 3 assms by (simp add: encodeRune_def validRune_def)
    ultimately show ?thesis by (simp only:)
  next
    case 4
    with assms have "decodeRune (encodeRune r @ rest) = (r, 4)"
      by (intro decode_encode_4) (simp_all add: validRune_def)
    moreover have "length (encodeRune r) = 4"
      using 4 assms by (simp add: encodeRune_def validRune_def)
    ultimately show ?thesis by (simp only:)
  qed
qed

lemma fst_ifI: "(c \<Longrightarrow> P (fst a)) \<Longrightarrow> (\<not> c \<Longrightarrow> P (fst b)) \<Longrightarrow> P (fst (if c then a else b))"
  by simp

lemma validRune_decodeRune: "validRune (fst (decodeRune s))"
proof (cases s)
  case Nil
  then show ?thesis by (simp add: validRune_def RuneError_def)
next
  case (Cons c0 rest)
  define b0 where "b0 = (of_char c0 :: nat)"
  have e: "validRune RuneError" by (simp add: validRune_def RuneError_def)
  have two: "validRune ((b0 - 0xC0) * 64 + low6 c1)"
    if "0xC2 \<le> b0 \<and> b0 \<le> 0xDF" "inRange 0x80 0xBF c1" for c1
  proof -
    define x where "x = b0 - 0xC0"
    define y where "y = low6 c1"
    have "x < 32" "y < 64"
      using that by (auto simp: x_def y_def inRange_def low6_def)
    then have "validRune (x * 64 + y)"
      by (simp add: validRune_def)
    then show ?thesis by (simp only: x_def y_def)
  qed
  have three: "validRune ((b0 - 0xE0) * 4096 + low6 c1 * 64 + low6 c2)"
    if "0xE0 \<le> b0 \<and> b0 \<le> 0xEF"
      "inRange (if b0 = 0xE0 then 0xA0 else 0x80) (if b0 = 0xED then 0x9F else 0xBF) c1"
      "inRange 0x80 0xBF c2" for c1 c2
  proof -
    define x where "x = b0 - 0xE0"
    define y where "y = low6 c1"
    define z where "z = low6 c2"
    have b: "x < 16" "y < 64" "z < 64"
      using that by (auto simp: x_def y_def z_def inRange_def low6_def split: if_splits)
    have h: "x = 13 \<longrightarrow> y \<le> 31"
      using that by (auto simp: x_def y_def inRange_def low6_def split: if_splits)
    consider "x \<le> 12" | "x = 13" | "14 \<le> x" by linarith
    then have "validRune (x * 4096 + y * 64 + z)"
      using b h by cases (simp_all add: validRune_def)
    then show ?thesis by (simp only: x_def y_def z_def)
  qed
  have four: "validRune ((b0 - 0xF0) * 262144 + low6 c1 * 4096 + low6 c2 * 64 + low6 c3)"
    if "0xF0 \<le> b0 \<and> b0 \<le> 0xF4"
      "inRange (if b0 = 0xF0 then 0x90 else 0x80) (if b0 = 0xF4 then 0x8F else 0xBF) c1"
      "inRange 0x80 0xBF c2" "inRange 0x80 0xBF c3" for c1 c2 c3
  proof -
    define x where "x = b0 - 0xF0"
    define y where "y = low6 c1"
    define z where "z = low6 c2"
    define w where "w = low6 c3"
    have b: "x < 5" "y < 64" "z < 64" "w < 64"
      using that by (auto simp: x_def y_def z_def w_def inRange_def low6_def split: if_splits)
    have h: "x = 4 \<longrightarrow> y \<le> 15" "x = 0 \<longrightarrow> 16 \<le> y"
      using that by (auto simp: x_def y_def inRange_def low6_def split: if_splits)
    consider "x = 0" | "1 \<le> x" "x \<le> 3" | "x = 4" using b by linarith
    then have "validRune (x * 262144 + y * 4096 + z * 64 + w)"
      using b h by cases (simp_all add: validRune_def)
    then show ?thesis by (simp only: x_def y_def z_def w_def)
  qed
  have one: "validRune b0" if "b0 < 0x80"
    using that by (simp add: validRune_def)
  consider (a) "b0 < 0x80" | (b) "0xC2 \<le> b0 \<and> b0 \<le> 0xDF" | (c) "0xE0 \<le> b0 \<and> b0 \<le> 0xEF"
    | (d) "0xF0 \<le> b0 \<and> b0 \<le> 0xF4"
    | (o) "\<not> b0 < 0x80" "\<not> (0xC2 \<le> b0 \<and> b0 \<le> 0xDF)" "\<not> (0xE0 \<le> b0 \<and> b0 \<le> 0xEF)"
          "\<not> (0xF0 \<le> b0 \<and> b0 \<le> 0xF4)"
    by blast
  then have "validRune (fst (decodeRune (c0 # rest)))"
  proof cases
    case a
    then show ?thesis
      using one by (simp only: decodeRune.simps Let_def b0_def [symmetric] if_True simp_thms fst_conv)
  next
    case b
    then have n: "\<not> b0 < 0x80" by simp
    show ?thesis
    proof (cases rest)
      case Nil
      then show ?thesis
        using e by (simp only: decodeRune.simps Let_def b0_def [symmetric] n b if_True if_False simp_thms
                      list.case fst_conv)
    next
      case (Cons c1 r1)
      show ?thesis
        unfolding Cons
        by (simp only: decodeRune.simps Let_def b0_def [symmetric] n b if_True if_False simp_thms list.case)
           (rule fst_ifI; simp only: fst_conv; (rule e | rule two [OF b]); assumption)
    qed
  next
    case c
    then have n: "\<not> b0 < 0x80" "\<not> (0xC2 \<le> b0 \<and> b0 \<le> 0xDF)" by simp_all
    show ?thesis
    proof (cases rest)
      case Nil
      then show ?thesis
        using e by (simp only: decodeRune.simps Let_def b0_def [symmetric] n c if_True if_False simp_thms
                      list.case fst_conv)
    next
      case r: (Cons c1 r1)
      show ?thesis
      proof (cases r1)
        case Nil
        then show ?thesis
          using e unfolding r
          by (simp only: decodeRune.simps Let_def b0_def [symmetric] n c if_True if_False simp_thms
                list.case fst_conv)
      next
        case (Cons c2 r2)
        show ?thesis
          unfolding r Cons
          by (simp only: decodeRune.simps Let_def b0_def [symmetric] n c if_True if_False simp_thms list.case)
             (rule fst_ifI; simp only: fst_conv; (rule e | (erule conjE, rule three [OF c]; assumption)))
      qed
    qed
  next
    case d
    then have n: "\<not> b0 < 0x80" "\<not> (0xC2 \<le> b0 \<and> b0 \<le> 0xDF)"
      "\<not> (0xE0 \<le> b0 \<and> b0 \<le> 0xEF)" by simp_all
    show ?thesis
    proof (cases rest)
      case Nil
      then show ?thesis
        using e by (simp only: decodeRune.simps Let_def b0_def [symmetric] n d if_True if_False simp_thms
                      list.case fst_conv)
    next
      case r: (Cons c1 r1)
      show ?thesis
      proof (cases r1)
        case Nil
        then show ?thesis
          using e unfolding r
          by (simp only: decodeRune.simps Let_def b0_def [symmetric] n d if_True if_False simp_thms
                list.case fst_conv)
      next
        case r': (Cons c2 r2)
        show ?thesis
        proof (cases r2)
          case Nil
          then show ?thesis
            using e unfolding r r'
            by (simp only: decodeRune.simps Let_def b0_def [symmetric] n d if_True if_False simp_thms
                  list.case fst_conv)
        next
          case (Cons c3 r3)
          show ?thesis
            unfolding r r' Cons
            by (simp only: decodeRune.simps Let_def b0_def [symmetric] n d if_True if_False simp_thms
                  list.case)
               (rule fst_ifI; simp only: fst_conv;
                (rule e | (elim conjE, rule four [OF d]; assumption)))
        qed
      qed
    qed
  next
    case o
    then show ?thesis
      using e by (simp only: decodeRune.simps Let_def b0_def [symmetric] o if_False simp_thms fst_conv)
  qed
  then show ?thesis by (simp only: Cons)
qed

lemma Map_encodeRune:
  assumes "validRune r"
  shows "Map f (encodeRune r @ rest) = encodeRune (f r) @ Map f rest"
proof -
  obtain c cs where e: "encodeRune r = c # cs"
    using length_encodeRune [of r] by (cases "encodeRune r") auto
  have d: "decodeRune (c # cs @ rest) = (r, Suc (length cs))"
    using decode_encode [OF assms, of rest] by (simp add: e)
  show ?thesis
    by (simp add: e d del: decodeRune.simps)
qed

lemma Map_step:
  "Map f (c # cs) =
     encodeRune (f (fst (decodeRune (c # cs)))) @ Map f (drop (snd (decodeRune (c # cs)) - 1) cs)"
  by simp

lemma Map_idem:
  assumes "\<forall>r. validRune r \<longrightarrow> validRune (f r) \<and> f (f r) = f r"
  shows "Map f (Map f s) = Map f s"
proof (induction "length s" arbitrary: s rule: less_induct)
  case less
  show ?case
  proof (cases s)
    case Nil
    then show ?thesis by simp
  next
    case (Cons c cs)
    define r where "r = fst (decodeRune (c # cs))"
    define rest where "rest = drop (snd (decodeRune (c # cs)) - 1) cs"
    have v: "validRune r" unfolding r_def by (rule validRune_decodeRune)
    with assms have vm: "validRune (f r)" and im: "f (f r) = f r" by blast+
    have step: "Map f (c # cs) = encodeRune (f r) @ Map f rest"
      unfolding r_def rest_def by (rule Map_step)
    have "length rest < length s" by (simp add: rest_def Cons)
    then have ih: "Map f (Map f rest) = Map f rest" by (rule less)
    have "Map f (Map f (c # cs)) = encodeRune (f (f r)) @ Map f (Map f rest)"
      unfolding step by (rule Map_encodeRune [OF vm])
    also have "\<dots> = encodeRune (f r) @ Map f rest"
      by (simp only: im ih)
    finally show ?thesis unfolding Cons step .
  qed
qed

lemma upper_in_encodeRune:
  assumes "c \<in> set (encodeRune x)" and "isUpper c"
  shows "65 \<le> x \<and> x \<le> 90"
proof -
  have hi: "\<not> isUpper (char_of (n::nat))" if "128 \<le> n" "n < 256" for n
    using that by (simp add: isUpper_def)
  consider "x \<le> 0x7F" | "0x7F < x" "x \<le> 0x7FF"
    | "0x7FF < x" "x > 0x10FFFF \<or> (0xD800 \<le> x \<and> x \<le> 0xDFFF)"
    | "0x7FF < x" "\<not> (x > 0x10FFFF \<or> (0xD800 \<le> x \<and> x \<le> 0xDFFF))" "x \<le> 0xFFFF"
    | "0xFFFF < x" "x \<le> 0x10FFFF"
    by linarith
  then show ?thesis
  proof cases
    case 1
    with assms show ?thesis by (simp add: encodeRune_def isUpper_def)
  next
    case 2
    then have "c = char_of (0xC0 + x div 64) \<or> c = char_of (0x80 + x mod 64)"
      using assms(1) by (simp add: encodeRune_def)
    moreover have "\<not> isUpper (char_of (0xC0 + x div 64))"
      using 2 by (intro hi) simp_all
    moreover have "\<not> isUpper (char_of (0x80 + x mod 64))"
      by (intro hi) simp_all
    ultimately show ?thesis using assms(2) by blast
  next
    case 3
    then have "c \<in> set [CHR 0xEF, CHR 0xBF, CHR 0xBD]"
      using assms(1) unfolding encodeRune_def by (simp only: if_True if_False) simp
    with assms(2) show ?thesis by (auto simp: isUpper_def)
  next
    case 4
    then have "c = char_of (0xE0 + x div 4096) \<or> c = char_of (0x80 + (x div 64) mod 64)
                 \<or> c = char_of (0x80 + x mod 64)"
      using assms(1) unfolding encodeRune_def by (simp only: if_True if_False) simp
    moreover have "\<not> isUpper (char_of (0xE0 + x div 4096))"
      using 4 by (intro hi) simp_all
    moreover have "\<not> isUpper (char_of (0x80 + (x div 64) mod 64))"
      by (intro hi) simp_all
    moreover have "\<not> isUpper (char_of (0x80 + x mod 64))"
      by (intro hi) simp_all
    ultimately show ?thesis using assms(2) by blast
  next
    case 5
    then have n: "\<not> x \<le> 0x7F" "\<not> x \<le> 0x7FF"
      "\<not> (x > 0x10FFFF \<or> (0xD800 \<le> x \<and> x \<le> 0xDFFF))" "\<not> x \<le> 0xFFFF"
      by simp_all
    have "c = char_of (0xF0 + x div 262144) \<or> c = char_of (0x80 + (x div 4096) mod 64)
            \<or> c = char_of (0x80 + (x div 64) mod 64) \<or> c = char_of (0x80 + x mod 64)"
      using assms(1) unfolding encodeRune_def by (simp only: n if_False) simp
    moreover have "\<not> isUpper (char_of (0xF0 + x div 262144))"
      using 5 by (intro hi) simp_all
    moreover have "\<not> isUpper (char_of (0x80 + (x div 4096) mod 64))"
      by (intro hi) simp_all
    moreover have "\<not> isUpper (char_of (0x80 + (x div 64) mod 64))"
      by (intro hi) simp_all
    moreover have "\<not> isUpper (char_of (0x80 + x mod 64))"
      by (intro hi) simp_all
    ultimately show ?thesis using assms(2) by blast
  qed
qed

declare decodeRune.simps [simp del]

lemma set_Map: "c \<in> set (Map f s) \<Longrightarrow> \<exists>r. validRune r \<and> c \<in> set (encodeRune (f r))"
proof (induction "length s" arbitrary: s rule: less_induct)
  case less
  show ?case
  proof (cases s)
    case Nil
    with less.prems show ?thesis by simp
  next
    case (Cons c0 cs)
    define rest where "rest = drop (snd (decodeRune (c0 # cs)) - 1) cs"
    have "length rest < length s" by (simp add: rest_def Cons)
    from less.prems have "c \<in> set (encodeRune (f (fst (decodeRune (c0 # cs))))) \<or> c \<in> set (Map f rest)"
      unfolding Cons Map_step rest_def by simp
    then show ?thesis
    proof
      assume "c \<in> set (encodeRune (f (fst (decodeRune (c0 # cs)))))"
      then show ?thesis using validRune_decodeRune [of "c0 # cs"] by blast
    next
      assume "c \<in> set (Map f rest)"
      with \<open>length rest < length s\<close> show ?thesis by (rule less.hyps)
    qed
  qed
qed

lemma no_upper_Map:
  assumes "caseTableStable caseTable" and "c \<in> set (Map (unicodeToLower caseTable) s)"
  shows "\<not> isUpper c"
proof
  assume u: "isUpper c"
  from assms(2) obtain r where r: "validRune r" "c \<in> set (encodeRune (unicodeToLower caseTable r))"
    using set_Map by blast
  from upper_in_encodeRune [OF r(2) u]
  have "65 \<le> unicodeToLower caseTable r \<and> unicodeToLower caseTable r \<le> 90" .
  then have "unicodeToLower caseTable (unicodeToLower caseTable r) = unicodeToLower caseTable r + 32"
    by (simp add: unicodeToLower_def [of caseTable "unicodeToLower caseTable r"])
  moreover have "unicodeToLower caseTable (unicodeToLower caseTable r) = unicodeToLower caseTable r"
    using assms(1) r(1) by (simp add: caseTableStable_def)
  ultimately show False by simp
qed

lemma of_char_toLowerByte:
  "(of_char (toLowerByte c) :: nat) = (if isUpper c then of_char c + 32 else of_char c)"
  by (simp add: toLowerByte_def isUpper_def)

lemma not_isUpper_toLowerByte: "\<not> isUpper (toLowerByte c)"
  unfolding isUpper_def of_char_toLowerByte by (simp add: isUpper_def)

lemma toLowerByte_idem: "toLowerByte (toLowerByte c) = toLowerByte c"
  using not_isUpper_toLowerByte [of c] by (simp add: toLowerByte_def [of "toLowerByte c"])

lemma isASCII_map_toLowerByte: "isASCII s \<Longrightarrow> isASCII (map toLowerByte s)"
  by (induction s) (auto simp: isASCII_def of_char_toLowerByte isUpper_def)

lemma ToLower_ASCII_idem:
  "isASCII s \<Longrightarrow> ToLower caseTable (ToLower caseTable s) = ToLower caseTable s"
  by (simp add: ToLower_def isASCII_map_toLowerByte toLowerByte_idem)

lemma ToLower_idem:
  assumes "caseTableStable caseTable"
  shows "ToLower caseTable (ToLower caseTable s) = ToLower caseTable s"
proof (cases "isASCII s")
  case True
  then show ?thesis by (rule ToLower_ASCII_idem)
next
  case False
  let ?m = "Map (unicodeToLower caseTable) s"
  have 1: "map toLowerByte ?m = ?m"
    using no_upper_Map [OF assms] by (intro map_idI) (simp add: toLowerByte_def)
  have 2: "Map (unicodeToLower caseTable) ?m = ?m"
    using assms by (intro Map_idem) (simp add: caseTableStable_def)
  from False 1 2 show ?thesis by (simp add: ToLower_def)
qed

lemma caseTableStable_example: "caseTableStable exampleCaseTable"
  unfolding caseTableStable_def
proof (intro allI impI)
  fix r assume v: "validRune r"
  consider "r \<le> 0x7F" | "0x7F < r" "0xC0 \<le> r \<and> r \<le> 0xDE \<and> r \<noteq> 0xD7"
    | "0x7F < r" "\<not> (0xC0 \<le> r \<and> r \<le> 0xDE \<and> r \<noteq> 0xD7)" by linarith
  then show "validRune (unicodeToLower exampleCaseTable r)
      \<and> unicodeToLower exampleCaseTable (unicodeToLower exampleCaseTable r)
          = unicodeToLower exampleCaseTable r"
  proof cases
    case 1
    then show ?thesis by (simp add: unicodeToLower_def validRune_def)
  next
    case 2
    then show ?thesis by (simp add: unicodeToLower_def exampleCaseTable_def validRune_def)
  next
    case 3
    then have "exampleCaseTable r = r"
      unfolding exampleCaseTable_def by (simp only: if_False)
    with 3 v show ?thesis by (simp add: unicodeToLower_def)
  qed
qed

lemma set_fieldsFunc: "\<Union> (set ` set (fieldsFunc cur s)) \<subseteq> set cur \<union> set s"
proof (induction cur s rule: fieldsFunc.induct)
  case (1 cur)
  then show ?case by simp
next
  case (2 cur c cs)
  let ?n = "snd (decodeRune (c # cs)) - 1"
  have d: "set (drop ?n cs) \<subseteq> set cs" by (rule set_drop_subset)
  have t: "set (take ?n cs) \<subseteq> set cs" by (rule set_take_subset)
  show ?case
  proof (cases "IsSpace (fst (decodeRune (c # cs)))")
    case True
    with 2(1,2) d show ?thesis by (cases "cur = []") auto
  next
    case False
    with 2(3) d t show ?thesis by auto
  qed
qed

lemma sublist_fieldsFunc: "w \<in> set (fieldsFunc cur s) \<Longrightarrow> sublist w (cur @ s)"
proof (induction cur s rule: fieldsFunc.induct)
  case (1 cur)
  then show ?case by (auto split: if_splits)
next
  case (2 cur c cs)
  let ?n = "snd (decodeRune (c # cs)) - 1"
  show ?case
  proof (cases "IsSpace (fst (decodeRune (c # cs)))")
    case False
    with 2 have "sublist w ((cur @ c # take ?n cs) @ drop ?n cs)" by simp
    then show ?thesis by simp
  next
    case True
    then have "w = cur \<or> w \<in> set (fieldsFunc [] (drop ?n cs))"
      using 2(4) by (auto split: if_splits)
    then show ?thesis
    proof
      assume "w = cur"
      then show ?thesis by simp
    next
      assume w: "w \<in> set (fieldsFunc [] (drop ?n cs))"
      have "sublist w ([] @ drop ?n cs)"
      proof (cases "cur = []")
        case True
        with 2(1) \<open>IsSpace (fst (decodeRune (c # cs)))\<close> w show ?thesis by simp
      next
        case False
        with 2(2) \<open>IsSpace (fst (decodeRune (c # cs)))\<close> w show ?thesis by simp
      qed
      then have "sublist w (drop ?n cs)" by simp
      moreover have "sublist (drop ?n cs) (cur @ c # cs)"
        by (metis append_take_drop_id sublist_append_leftI append.assoc append_Cons)
      ultimately show ?thesis using sublist_order.order_trans by blast
    qed
  qed
qed

section \<open>Properties of the signature gate\<close>

lemma ParseInt_min_int64: "ParseInt ''-9223372036854775808'' = Some (- 9223372036854775808)"
  by (simp add: ParseInt_def isDigit_def)

lemma ParseInt_max_int64: "ParseInt ''9223372036854775807'' = Some 9223372036854775807"
  by (simp add: ParseInt_def isDigit_def)

lemma ParseInt_empty: "ParseInt [] = None"
  by (simp add: ParseInt_def)

text \<open>Go's \<open>int64\<close> subtraction is the subtraction of the integers when that fits 64 bits.\<close>

lemma sint_sub_no_wrap:
  fixes a b :: int64
  assumes "- (2 ^ 63) \<le> sint a - sint b" and "sint a - sint b < 2 ^ 63"
  shows "sint (a - b) = sint a - sint b"
  using assms by (simp add: sint_word_ariths signed_take_bit_int_eq_self)

lemma sint_bounds64:
  fixes a :: int64
  shows "- (2 ^ 63) \<le> sint a" and "sint a < 2 ^ 63"
  using sint_ge [of a] sint_lt [of a] by simp_all

text \<open>The rejections of the gate.\<close>

lemma verify_fails_closed:
  "SlackSigningSecret cfg = [] \<Longrightarrow> \<not> verifySlackSignature hmacHex cfg now r"
  by (simp add: verifySlackSignature_def)

lemma verify_rejects_unparsable:
  "ParseInt (hdrTimestamp r) = None \<Longrightarrow> \<not> verifySlackSignature hmacHex cfg now r"
  by (simp add: verifySlackSignature_def Let_def)

lemma verify_rejects_missing_timestamp:
  "hdrTimestamp r = [] \<Longrightarrow> \<not> verifySlackSignature hmacHex cfg now r"
  by (simp add: verifySlackSignature_def Let_def)

text \<open>
  A timestamp more than 300 seconds old is rejected as long as the age itself fits
  \<open>int64\<close>, which is the case for every timestamp that is not below \<open>now - 2^63 + 1\<close>.
\<close>

lemma verify_rejects_stale:
  assumes "ParseInt (hdrTimestamp r) = Some ts"
    and "300 < sint now - sint ts" and "sint now - sint ts < 2 ^ 63"
  shows "\<not> verifySlackSignature hmacHex cfg now r"
proof -
  have "sint (now - ts) = sint now - sint ts"
    using assms(2,3) by (intro sint_sub_no_wrap) linarith+
  with assms(1,2) show ?thesis
    by (simp add: verifySlackSignature_def Let_def)
qed

lemma verify_rejects_bad_signature:
  assumes "reqBody r = Some body"
    and "hdrSignature r \<noteq> ''v0='' @ hmacHex (SlackSigningSecret cfg) (''v0:'' @ hdrTimestamp r @ '':'' @ body)"
  shows "\<not> verifySlackSignature hmacHex cfg now r"
  using assms
  by (simp add: verifySlackSignature_def calculateSignature_def Let_def split: option.splits)

lemma verify_rejects_unreadable_body:
  "reqBody r = None \<Longrightarrow> \<not> verifySlackSignature hmacHex cfg now r"
  by (simp add: verifySlackSignature_def Let_def split: option.splits)

text \<open>
  Claim C2. The gate is to reject every request whose timestamp lies more than 300 seconds in
  the past. The age \<open>time.Now().Unix() - ts\<close> is computed in \<open>int64\<close> and wraps: for the
  timestamp \<open>-9223372036854775808\<close> and the clock at \<open>1762128000\<close> the difference
  is \<open>-9223372035092647808\<close>, which is not above 300, and the request, signed over that
  timestamp, passes the gate although its timestamp is far more than 300 seconds old.
  The other rejections of the claim (no secret, missing or unparsable timestamp, a
  signature that differs) are the lemmas above.
\<close>

theorem verifySlackSignature_accepts_wrapped_stale_timestamp:
  "verifySlackSignature hmacHex
     exampleConfig
     1762128000
     \<lparr>hdrTimestamp = ''-9223372036854775808'',
      hdrSignature = ''v0='' @ hmacHex ''secret'' ''v0:-9223372036854775808:{}'',
      reqBody = Some ''{}''\<rparr>
   \<and> 300 < sint (1762128000 :: int64) - sint (- 9223372036854775808 :: int64)"
  by (simp add: verifySlackSignature_def ParseInt_min_int64 calculateSignature_def
        exampleConfig_def)

text \<open>
  Claim C10. The freshness check bounds the age from above only. With the clock at or after
  the epoch (\<open>0 \<le> now\<close>), every timestamp after \<open>now\<close> gives a negative age, which is
  not above 300: the check does not reject, and a request signed over that timestamp
  passes the gate.
\<close>

theorem verifySlackSignature_accepts_future_timestamp:
  assumes "0 \<le> sint now" and "sint now < sint ts"
    and "SlackSigningSecret cfg \<noteq> []"
    and "ParseInt (hdrTimestamp r) = Some ts"
    and "reqBody r = Some body"
    and "hdrSignature r = ''v0='' @ calculateSignature hmacHex cfg (hdrTimestamp r) body"
  shows "\<not> sint (now - ts) > 300 \<and> verifySlackSignature hmacHex cfg now r"
proof -
  have "sint (now - ts) = sint now - sint ts"
    using assms(1,2) sint_bounds64 [of ts] sint_bounds64 [of now]
    by (intro sint_sub_no_wrap) linarith+
  then have fresh: "\<not> sint (now - ts) > 300"
    using assms(2) by simp
  have "hdrTimestamp r \<noteq> []"
    using assms(4) by (auto simp: ParseInt_def)
  with fresh assms(3-6) show ?thesis
    by (simp add: verifySlackSignature_def)
qed

theorem verifySlackSignature_accepts_future_timestamp_witness:
  "verifySlackSignature (\<lambda>key msg. key @ msg)
     exampleConfig
     1762128000
     \<lparr>hdrTimestamp = ''9223372036854775807'',
      hdrSignature = ''v0=secretv0:9223372036854775807:{}'',
      reqBody = Some ''{}''\<rparr>"
  using verifySlackSignature_accepts_future_timestamp
    [of 1762128000 9223372036854775807
        exampleConfig
        "\<lparr>hdrTimestamp = ''9223372036854775807'',
          hdrSignature = ''v0=secretv0:9223372036854775807:{}'',
          reqBody = Some ''{}''\<rparr>"
        "''{}''" "\<lambda>key msg. key @ msg"]
  by (simp add: ParseInt_max_int64 calculateSignature_def exampleConfig_def)

section \<open>Properties of the sanitization\<close>

lemma set_ReplaceAll: "set (ReplaceAll s old new) \<subseteq> set s \<union> set new"
proof (induction s old new rule: ReplaceAll.induct)
  case (1 old new)
  then show ?case by simp
next
  case (2 c cs old new)
  show ?case
  proof (cases "old \<noteq> [] \<and> prefix old (c # cs)")
    case True
    have "set (drop (length old) (c # cs)) \<subseteq> set (c # cs)" by (rule set_drop_subset)
    with True 2(1) show ?thesis by auto
  next
    case False
    with 2(2) show ?thesis by auto
  qed
qed

lemma ReplaceAll_removes_char:
  "d \<notin> set new \<Longrightarrow> d \<notin> set (ReplaceAll s [d] new)"
proof (induction s "[d]" new rule: ReplaceAll.induct)
  case (1 new)
  then show ?case by simp
next
  case (2 c cs new)
  show ?case
  proof (cases "prefix [d] (c # cs)")
    case True
    with 2 show ?thesis by simp
  next
    case False
    then have "c \<noteq> d" by auto
    with False 2 show ?thesis by simp
  qed
qed

lemma replaceEach_keeps_absent:
  "c \<notin> set s \<Longrightarrow> c \<noteq> CHR '' '' \<Longrightarrow> c \<notin> set (replaceEach ds s)"
proof (induction ds arbitrary: s)
  case Nil
  then show ?case by simp
next
  case (Cons d ds)
  have "c \<notin> set (ReplaceAll s d '' '')"
    using set_ReplaceAll [of s d "'' ''"] Cons.prems by auto
  with Cons show ?case by simp
qed

lemma replaceEach_removes_char:
  "[c] \<in> set ds \<Longrightarrow> c \<noteq> CHR '' '' \<Longrightarrow> c \<notin> set (replaceEach ds s)"
proof (induction ds arbitrary: s)
  case Nil
  then show ?case by simp
next
  case (Cons d ds)
  show ?case
  proof (cases "d = [c]")
    case True
    have "c \<notin> set (ReplaceAll s [c] '' '')"
      using Cons.prems(2) by (intro ReplaceAll_removes_char) simp
    with True Cons.prems(2) show ?thesis
      by (simp add: replaceEach_keeps_absent)
  next
    case False
    with Cons show ?thesis by simp
  qed
qed

lemma set_fieldsFrom: "\<Union> (set ` set (fieldsFrom cur s)) \<subseteq> set cur \<union> set s"
  by (induction cur s rule: fieldsFrom.induct) (auto split: if_splits)

lemma set_Join: "set (Join ws sep) \<subseteq> \<Union> (set ` set ws) \<union> set sep"
  by (induction ws sep rule: Join.induct) auto

lemma set_Fields: "\<Union> (set ` set (Fields s)) \<subseteq> set s"
proof (cases "isASCII s")
  case True
  with set_fieldsFrom [of "[]" s] show ?thesis by (simp add: Fields_def)
next
  case False
  with set_fieldsFunc [of "[]" s] show ?thesis by (simp add: Fields_def)
qed

lemma set_sanitizeCQLQuery:
  "set (sanitizeCQLQuery q) \<subseteq> set (replaceEach dangerous q) \<union> {CHR '' ''}"
proof -
  let ?r = "replaceEach dangerous q"
  have "set (Join (Fields ?r) '' '') \<subseteq> set ?r \<union> {CHR '' ''}"
    using set_Join [of "Fields ?r" "'' ''"] set_Fields [of ?r]
    by auto
  moreover have "set (take 100 (Join (Fields ?r) '' '')) \<subseteq> set (Join (Fields ?r) '' '')"
    by (rule set_take_subset)
  ultimately show ?thesis
    by (auto simp: sanitizeCQLQuery_def Let_def)
qed

lemma dangerousChars_in_list: "c \<in> dangerousChars \<Longrightarrow> [c] \<in> set dangerous \<and> c \<noteq> CHR '' ''"
  by (auto simp: dangerousChars_def dangerous_def)


text \<open>
  What the sanitization guarantees for every query: the output holds none of the
  characters \<open>( ) [ ] { } " ' \ ~ * ?\<close> and is at most 100 bytes long.
\<close>

lemma sanitizeCQLQuery_removes_characters_and_bounds_length:
  "(\<forall>c \<in> set (sanitizeCQLQuery q). c \<notin> dangerousChars) \<and> length (sanitizeCQLQuery q) \<le> 100"
proof
  show "\<forall>c \<in> set (sanitizeCQLQuery q). c \<notin> dangerousChars"
  proof
    fix c assume c: "c \<in> set (sanitizeCQLQuery q)"
    show "c \<notin> dangerousChars"
    proof
      assume d: "c \<in> dangerousChars"
      then have "c \<notin> set (replaceEach dangerous q)" and "c \<noteq> CHR '' ''"
        using dangerousChars_in_list [OF d] by (simp_all add: replaceEach_removes_char)
      with c set_sanitizeCQLQuery [of q] show False by auto
    qed
  qed
  show "length (sanitizeCQLQuery q) \<le> 100"
    by (simp add: sanitizeCQLQuery_def Let_def)
qed

text \<open>
  Claim C3. The output of \<open>sanitizeCQLQuery\<close> is to hold none of the operators \<open>AND\<close>,
  \<open>OR\<close>, \<open>NOT\<close>. The code replaces \<open>" AND "\<close> in one pass from left to right, and
  two occurrences cannot share a space: in \<open>a AND AND b\<close> the second \<open>AND\<close> has lost its
  leading space to the first, is not replaced, and stands between two spaces in the
  output \<open>a AND b\<close>.
\<close>

theorem sanitizeCQLQuery_leaves_operator:
  "sanitizeCQLQuery ''a AND AND b'' = ''a AND b''
   \<and> sublist '' AND '' (sanitizeCQLQuery ''a AND AND b'')"
proof -
  have e: "sanitizeCQLQuery ''a AND AND b'' = ''a AND b''"
    by (simp add: sanitizeCQLQuery_def dangerous_def string_eval)
  have "sublist '' AND '' (''a'' @ '' AND '' @ ''b'')"
    by (rule sublist_appendI)
  with e show ?thesis by simp
qed

text \<open>
  The operators are replaced before the characters, so an operator between brackets is
  uncovered after its pass; and the patterns carry a space on either side, so an operator
  at the start of the query is never matched.
\<close>

lemma sanitizeCQLQuery_operator_after_brackets:
  "sanitizeCQLQuery ''x(AND)y'' = ''x AND y''"
  by (simp add: sanitizeCQLQuery_def dangerous_def string_eval)

lemma sanitizeCQLQuery_keeps_leading_operator:
  "sanitizeCQLQuery ''NOT secret'' = ''NOT secret''"
  by (simp add: sanitizeCQLQuery_def dangerous_def string_eval)

text \<open>Two cases of the repository's \<open>TestSanitizeCQLQuery\<close>.\<close>

lemma sanitizeCQLQuery_test_parentheses:
  "sanitizeCQLQuery ''(deployment OR guide) AND setup'' = ''deployment guide setup''"
  by (simp add: sanitizeCQLQuery_def dangerous_def string_eval)

lemma sanitizeCQLQuery_test_special_characters:
  "sanitizeCQLQuery ''deploy* ~guide [setup]'' = ''deploy guide setup''"
  by (simp add: sanitizeCQLQuery_def dangerous_def string_eval)

section \<open>Properties of the scoring\<close>

lemma Contains_sublist: "Contains s sub \<longleftrightarrow> sublist sub s"
  by (induction s) (auto simp: sublist_Cons_right)

lemma scoreLoop_count:
  "scoreLoop content ks score = score + real (length (filter (Contains content) ks))"
  by (induction ks arbitrary: score) auto

lemma sublist_fieldsFrom: "w \<in> set (fieldsFrom cur s) \<Longrightarrow> sublist w (cur @ s)"
proof (induction cur s rule: fieldsFrom.induct)
  case (1 cur)
  then show ?case by (auto split: if_splits)
next
  case (2 cur c cs)
  show ?case
  proof (cases "asciiSpace c")
    case False
    with 2 show ?thesis by simp
  next
    case True
    then have "w = cur \<or> w \<in> set (fieldsFrom [] cs)"
      using 2(4) by (auto split: if_splits)
    then show ?thesis
    proof
      assume "w = cur"
      then show ?thesis by (simp add: sublist_append_rightI)
    next
      assume w: "w \<in> set (fieldsFrom [] cs)"
      have "sublist w ([] @ cs)"
      proof (cases "cur = []")
        case True
        with 2(1) \<open>asciiSpace c\<close> w show ?thesis by simp
      next
        case False
        with 2(2) \<open>asciiSpace c\<close> w show ?thesis by simp
      qed
      then have "sublist w cs" by simp
      then have "sublist w (c # cs)" by (simp add: sublist_Cons_right)
      then show ?thesis by (simp add: sublist_append)
    qed
  qed
qed

lemma sublist_dropWhile: "sublist (dropWhile P s) s"
  by (metis takeWhile_dropWhile_id sublist_append_leftI)

lemma sublist_Trim: "sublist (Trim s cutset) s"
proof -
  let ?P = "\<lambda>c. c \<in> set cutset"
  have "sublist (dropWhile ?P (rev (dropWhile ?P s))) (rev (dropWhile ?P s))"
    by (rule sublist_dropWhile)
  then have "sublist (rev (dropWhile ?P (rev (dropWhile ?P s)))) (rev (rev (dropWhile ?P s)))"
    by (simp only: sublist_rev)
  then have "sublist (Trim s cutset) (dropWhile ?P s)"
    by (simp add: Trim_def)
  then show ?thesis
    using sublist_dropWhile [of ?P s] sublist_order.order_trans by blast
qed

lemma keywordsLoop_source:
  "k \<in> set (keywordsLoop words ks) \<Longrightarrow>
     k \<in> set ks \<or> (\<exists>w \<in> set words. k = Trim w ''.,!?;:'')"
  by (induction words ks rule: keywordsLoop.induct) (auto simp: Let_def split: if_splits)

lemma Fields_sublist: "w \<in> set (Fields s) \<Longrightarrow> sublist w s"
  using sublist_fieldsFrom [of w "[]" s] sublist_fieldsFunc [of w "[]" s]
  by (auto simp: Fields_def split: if_splits)

lemma extractKeywords_sublist:
  assumes "k \<in> set (extractKeywords caseTable q)"
  shows "sublist k (ToLower caseTable q)"
proof -
  from assms obtain w where w: "w \<in> set (Fields (ToLower caseTable q))"
    and k: "k = Trim w ''.,!?;:''"
    using keywordsLoop_source [of k "Fields (ToLower caseTable q)" "[]"]
    by (auto simp: extractKeywords_def Let_def)
  from w have "sublist w (ToLower caseTable q)"
    by (rule Fields_sublist)
  with k sublist_Trim [of w] show ?thesis
    using sublist_order.order_trans by blast
qed

lemma extractKeywords_scenario:
  "extractKeywords caseTable ''How to deploy service'' = [''deploy'', ''service'']"
  by (simp add: extractKeywords_def stopWords_def string_eval)

text \<open>
  Beyond ASCII: \<open>U+3000\<close> and \<open>U+00A0\<close> separate fields, and with the Latin-1 part of
  the case tables \<open>U+00C9\<close> (\<open>C3 89\<close>) is lower-cased to \<open>U+00E9\<close> (\<open>C3 A9\<close>).
\<close>

lemma Fields_unicode_space:
  "Fields (''a'' @ [CHR 0xE3, CHR 0x80, CHR 0x80] @ ''b'' @ [CHR 0xC2, CHR 0xA0] @ ''c d'')
     = [''a'', ''b'', ''c'', ''d'']"
  by (simp add: string_eval)

lemma ToLower_latin1:
  "ToLower exampleCaseTable ([CHR 0xC3, CHR 0x89] @ ''COLE'') = [CHR 0xC3, CHR 0xA9] @ ''cole''"
  by (simp add: string_eval exampleCaseTable_def)

text \<open>
  Claim C6. For every content and every query (and whatever the case tables map the code
  points above 127 to), with \<open>kws\<close> the keywords extracted from the lower-cased query and
  \<open>found\<close> those that occur in the lower-cased content: the score lies in \<open>[0, 1]\<close>; it is
  \<open>|found| / |kws|\<close>, and 0 when there is no keyword; it is 1 when every keyword occurs
  (there being at least one), and so it is when the content is the query itself, the case
  tables being stable (\<open>caseTableStable\<close>); it is 0 when no keyword occurs.
\<close>

theorem calculateRelevanceScore_is_keyword_fraction:
  "(let kws = extractKeywords caseTable (ToLower caseTable query);
        found = filter (\<lambda>k. sublist k (ToLower caseTable content)) kws;
        s = calculateRelevanceScore caseTable content query
    in 0 \<le> s \<and> s \<le> 1
     \<and> s = (if kws = [] then 0 else real (length found) / real (length kws))
     \<and> (kws = [] \<longrightarrow> s = 0)
     \<and> (kws \<noteq> [] \<and> (\<forall>k \<in> set kws. sublist k (ToLower caseTable content)) \<longrightarrow> s = 1)
     \<and> (caseTableStable caseTable \<and> kws \<noteq> [] \<and> content = query \<longrightarrow> s = 1)
     \<and> ((\<forall>k \<in> set kws. \<not> sublist k (ToLower caseTable content)) \<longrightarrow> s = 0))"
proof -
  define kws where "kws = extractKeywords caseTable (ToLower caseTable query)"
  define found where "found = filter (\<lambda>k. sublist k (ToLower caseTable content)) kws"
  define s where "s = calculateRelevanceScore caseTable content query"
  have found': "found = filter (Contains (ToLower caseTable content)) kws"
    by (simp add: found_def Contains_sublist [abs_def])
  have s_eq: "s = (if kws = [] then 0 else real (length found) / real (length kws))"
    by (simp add: s_def calculateRelevanceScore_def Let_def scoreLoop_count kws_def found')
  have len: "length found \<le> length kws"
    by (simp add: found_def)
  have range: "0 \<le> s \<and> s \<le> 1"
  proof (cases "kws = []")
    case True
    then show ?thesis by (simp add: s_eq)
  next
    case False
    then have "0 < real (length kws)" by simp
    with len show ?thesis by (simp add: s_eq False)
  qed
  have all: "s = 1" if "kws \<noteq> []" and "\<forall>k \<in> set kws. sublist k (ToLower caseTable content)"
  proof -
    have "found = kws" using that(2) by (simp add: found_def)
    with that(1) show ?thesis by (simp add: s_eq)
  qed
  have same: "s = 1" if "caseTableStable caseTable" and "kws \<noteq> []" and "content = query"
  proof -
    have "\<forall>k \<in> set kws. sublist k (ToLower caseTable content)"
    proof
      fix k assume "k \<in> set kws"
      then have "sublist k (ToLower caseTable (ToLower caseTable query))"
        unfolding kws_def by (rule extractKeywords_sublist)
      then show "sublist k (ToLower caseTable content)"
        by (simp add: ToLower_idem [OF that(1)] that(3))
    qed
    with that(2) show ?thesis by (rule all)
  qed
  have none: "s = 0" if "\<forall>k \<in> set kws. \<not> sublist k (ToLower caseTable content)"
  proof -
    have "found = []" using that by (simp add: found_def)
    then show ?thesis by (simp add: s_eq)
  qed
  have empty: "kws = [] \<longrightarrow> s = 0" by (simp add: s_eq)
  show ?thesis
    unfolding Let_def kws_def [symmetric] found_def [symmetric] s_def [symmetric]
    using range s_eq empty all same none by blast
qed

theorem calculateRelevanceScore_is_keyword_fraction_witness:
  "calculateRelevanceScore exampleCaseTable ''deploy the service to production''
       ''How to deploy service'' = 1
   \<and> calculateRelevanceScore exampleCaseTable ''How to deploy service''
       ''How to deploy service'' = 1
   \<and> calculateRelevanceScore exampleCaseTable ''lunch menu'' ''How to deploy service'' = 0
   \<and> calculateRelevanceScore exampleCaseTable ([CHR 0xC3, CHR 0x89] @ ''COLE'')
       ([CHR 0xC3, CHR 0xA9] @ ''cole'') = 1"
proof -
  let ?q = "''How to deploy service''"
  let ?e = "[CHR 0xC3, CHR 0xA9] @ ''cole''"
  let ?E = "[CHR 0xC3, CHR 0x89] @ ''COLE''"
  have k: "extractKeywords exampleCaseTable (ToLower exampleCaseTable ?q) = [''deploy'', ''service'']"
    by (simp add: extractKeywords_def stopWords_def string_eval)
  have all: "\<forall>k \<in> set [''deploy'', ''service''].
               sublist k (ToLower exampleCaseTable ''deploy the service to production'')"
    by (simp add: string_eval Contains_sublist [symmetric])
  have none: "\<forall>k \<in> set [''deploy'', ''service''].
                \<not> sublist k (ToLower exampleCaseTable ''lunch menu'')"
    by (simp add: string_eval Contains_sublist [symmetric])
  have le: "ToLower exampleCaseTable ?e = ?e"
    by (simp add: string_eval exampleCaseTable_def)
  have lE: "ToLower exampleCaseTable ?E = ?e"
    by (simp add: string_eval exampleCaseTable_def)
  have ke: "extractKeywords exampleCaseTable ?e = [?e]"
    by (simp add: extractKeywords_def stopWords_def string_eval exampleCaseTable_def)
  have alle: "\<forall>k \<in> set [?e]. sublist k ?e"
    by simp
  have "calculateRelevanceScore exampleCaseTable ''deploy the service to production'' ?q = 1"
    using calculateRelevanceScore_is_keyword_fraction
            [of exampleCaseTable ?q "''deploy the service to production''"] all
    unfolding Let_def k by blast
  moreover have "calculateRelevanceScore exampleCaseTable ?q ?q = 1"
    using calculateRelevanceScore_is_keyword_fraction [of exampleCaseTable ?q ?q]
      caseTableStable_example
    unfolding Let_def k by blast
  moreover have "calculateRelevanceScore exampleCaseTable ''lunch menu'' ?q = 0"
    using calculateRelevanceScore_is_keyword_fraction [of exampleCaseTable ?q "''lunch menu''"] none
    unfolding Let_def k by blast
  moreover have "calculateRelevanceScore exampleCaseTable ?E ?e = 1"
    using calculateRelevanceScore_is_keyword_fraction [of exampleCaseTable ?e ?E] alle
    unfolding Let_def le lE ke by blast
  ultimately show ?thesis by simp
qed

section \<open>Properties of the filter and of the sort\<close>

lemma filterLoop_filter:
  "filterLoop thr results filtered = filtered @ filter (\<lambda>r. Score r \<ge> thr) results"
  by (induction results arbitrary: filtered) auto

lemma mset_swap': "i < length xs \<Longrightarrow> j < length xs \<Longrightarrow> mset (swap i j xs) = mset xs"
  unfolding swap_def by (simp add: mset_swap)

lemma nth_swap:
  "i < length xs \<Longrightarrow> j < length xs \<Longrightarrow> k < length xs \<Longrightarrow>
     swap i j xs ! k = (if k = j then xs ! i else if k = i then xs ! j else xs ! k)"
  by (simp add: swap_def nth_list_update)

lemma mset_innerLoop: "i < j \<Longrightarrow> mset (innerLoop i j xs) = mset xs"
proof (induction i j xs rule: innerLoop.induct)
  case (1 i j xs)
  show ?case
  proof (cases "j < length xs")
    case True
    with 1 show ?thesis by (subst innerLoop.simps) (simp add: mset_swap')
  next
    case False
    then show ?thesis by (subst innerLoop.simps) simp
  qed
qed

lemma innerLoop_before:
  "i < j \<Longrightarrow> k < j \<Longrightarrow> k \<noteq> i \<Longrightarrow> innerLoop i j xs ! k = xs ! k"
proof (induction i j xs rule: innerLoop.induct)
  case (1 i j xs)
  show ?case
  proof (cases "j < length xs")
    case True
    with 1 show ?thesis by (subst innerLoop.simps) (simp add: nth_swap)
  next
    case False
    then show ?thesis by (subst innerLoop.simps) simp
  qed
qed

lemma innerLoop_step:
  "j < length xs \<Longrightarrow>
     innerLoop i j xs =
       innerLoop i (j + 1) (if Score (xs ! i) < Score (xs ! j) then swap i j xs else xs)"
  by (subst innerLoop.simps) simp

lemma innerLoop_exit: "\<not> j < length xs \<Longrightarrow> innerLoop i j xs = xs"
  by (subst innerLoop.simps) simp

lemma innerLoop_from:
  "i < j \<Longrightarrow> i \<le> b \<Longrightarrow> b < length xs \<Longrightarrow>
     \<exists>k. i \<le> k \<and> k < length xs \<and> innerLoop i j xs ! b = xs ! k"
proof (induction i j xs arbitrary: b rule: innerLoop.induct)
  case (1 i j xs)
  show ?case
  proof (cases "j < length xs")
    case False
    with "1.prems" show ?thesis by (auto simp: innerLoop_exit)
  next
    case True
    define xs' where "xs' = (if Score (xs ! i) < Score (xs ! j) then swap i j xs else xs)"
    have len: "length xs' = length xs" by (simp add: xs'_def)
    have step: "innerLoop i j xs = innerLoop i (j + 1) xs'"
      using True by (simp add: innerLoop_step xs'_def)
    have "\<exists>k. i \<le> k \<and> k < length xs' \<and> innerLoop i (j + 1) xs' ! b = xs' ! k"
      unfolding xs'_def using "1.prems" True by (intro "1.IH") simp_all
    then obtain k where k: "i \<le> k" "k < length xs" "innerLoop i (j + 1) xs' ! b = xs' ! k"
      unfolding len by blast
    have "\<exists>k'. i \<le> k' \<and> k' < length xs \<and> xs' ! k = xs ! k'"
    proof (cases "Score (xs ! i) < Score (xs ! j)")
      case False
      with k show ?thesis by (auto simp: xs'_def)
    next
      case sw: True
      have nth: "xs' ! k = (if k = j then xs ! i else if k = i then xs ! j else xs ! k)"
        using True "1.prems" k(2) sw by (simp add: xs'_def nth_swap)
      consider "k = j" | "k = i" "k \<noteq> j" | "k \<noteq> i" "k \<noteq> j" by blast
      then show ?thesis
      proof cases
        case 1
        with nth have "xs' ! k = xs ! i" by simp
        moreover have "i \<le> i" "i < length xs" using "1.prems" True by simp_all
        ultimately show ?thesis by blast
      next
        case 2
        with nth have "xs' ! k = xs ! j" by simp
        moreover have "i \<le> j" using "1.prems" by simp
        ultimately show ?thesis using True by blast
      next
        case 3
        with nth have "xs' ! k = xs ! k" by simp
        with k show ?thesis by blast
      qed
    qed
    with k(3) step show ?thesis by auto
  qed
qed

lemma innerLoop_max:
  "i < j \<Longrightarrow> (\<forall>k. i < k \<and> k < j \<and> k < length xs \<longrightarrow> Score (xs ! k) \<le> Score (xs ! i)) \<Longrightarrow>
     i < k \<Longrightarrow> k < length xs \<Longrightarrow>
     Score (innerLoop i j xs ! k) \<le> Score (innerLoop i j xs ! i)"
proof (induction i j xs rule: innerLoop.induct)
  case (1 i j xs)
  show ?case
  proof (cases "j < length xs")
    case False
    with "1.prems" show ?thesis by (auto simp: innerLoop_exit)
  next
    case True
    define xs' where "xs' = (if Score (xs ! i) < Score (xs ! j) then swap i j xs else xs)"
    have len: "length xs' = length xs" by (simp add: xs'_def)
    have step: "innerLoop i j xs = innerLoop i (j + 1) xs'"
      using True by (simp add: innerLoop_step xs'_def)
    have inv: "\<forall>k. i < k \<and> k < j + 1 \<and> k < length xs' \<longrightarrow> Score (xs' ! k) \<le> Score (xs' ! i)"
    proof (intro allI impI)
      fix k assume "i < k \<and> k < j + 1 \<and> k < length xs'"
      then have k: "i < k" "k \<le> j" "k < length xs" by (simp_all add: len)
      show "Score (xs' ! k) \<le> Score (xs' ! i)"
      proof (cases "Score (xs ! i) < Score (xs ! j)")
        case False
        with k "1.prems"(2) show ?thesis by (cases "k = j") (auto simp: xs'_def)
      next
        case sw: True
        have i: "xs' ! i = xs ! j"
          using True "1.prems"(1) sw by (simp add: xs'_def nth_swap)
        have kk: "xs' ! k = (if k = j then xs ! i else xs ! k)"
          using True "1.prems"(1) k sw by (simp add: xs'_def nth_swap)
        show ?thesis
        proof (cases "k = j")
          case True
          with sw i kk show ?thesis by simp
        next
          case False
          with k have "k < j" by simp
          with "1.prems"(2) k have "Score (xs ! k) \<le> Score (xs ! i)" by simp
          with sw i kk False show ?thesis by simp
        qed
      qed
    qed
    have "Score (innerLoop i (j + 1) xs' ! k) \<le> Score (innerLoop i (j + 1) xs' ! i)"
      unfolding xs'_def
      using "1.prems"(1,3,4) inv [unfolded xs'_def] True by (intro "1.IH") simp_all
    with step show ?thesis by simp
  qed
qed

lemma outerLoop_step:
  "i + 1 < length xs \<Longrightarrow> outerLoop i xs = outerLoop (i + 1) (innerLoop i (i + 1) xs)"
  by (subst outerLoop.simps) simp

lemma outerLoop_exit: "\<not> i + 1 < length xs \<Longrightarrow> outerLoop i xs = xs"
  by (subst outerLoop.simps) simp

lemma length_outerLoop [simp]: "length (outerLoop i xs) = length xs"
proof (induction i xs rule: outerLoop.induct)
  case (1 i xs)
  show ?case
  proof (cases "i + 1 < length xs")
    case True
    with 1 show ?thesis by (simp add: outerLoop_step)
  next
    case False
    then show ?thesis by (simp add: outerLoop_exit)
  qed
qed

lemma mset_outerLoop: "mset (outerLoop i xs) = mset xs"
proof (induction i xs rule: outerLoop.induct)
  case (1 i xs)
  show ?case
  proof (cases "i + 1 < length xs")
    case True
    with 1 show ?thesis by (simp add: outerLoop_step mset_innerLoop)
  next
    case False
    then show ?thesis by (simp add: outerLoop_exit)
  qed
qed

lemma dominated_innerLoop:
  assumes "dominated i xs" and "i + 1 < length xs"
  shows "dominated (i + 1) (innerLoop i (i + 1) xs)"
  unfolding dominated_def
proof (intro allI impI)
  let ?ys = "innerLoop i (i + 1) xs"
  fix a b assume ab: "a < i + 1 \<and> a < b \<and> b < length ?ys"
  then have b: "b < length xs" by simp
  show "Score (?ys ! b) \<le> Score (?ys ! a)"
  proof (cases "a = i")
    case True
    with ab b show ?thesis
      using innerLoop_max [of i "i + 1" xs b] by simp
  next
    case False
    with ab have a: "a < i" by simp
    then have ya: "?ys ! a = xs ! a"
      by (simp add: innerLoop_before)
    show ?thesis
    proof (cases "b < i")
      case True
      then have "?ys ! b = xs ! b" by (simp add: innerLoop_before)
      with ya assms(1) a ab b show ?thesis by (simp add: dominated_def)
    next
      case False
      then obtain k where k: "i \<le> k" "k < length xs" "?ys ! b = xs ! k"
        using innerLoop_from [of i "i + 1" b xs] b by auto
      with a have "a < k" by simp
      with assms(1) a k(2) have "Score (xs ! k) \<le> Score (xs ! a)" by (simp add: dominated_def)
      with ya k(3) show ?thesis by simp
    qed
  qed
qed

lemma dominated_outerLoop:
  "dominated i xs \<Longrightarrow> dominated (length xs) (outerLoop i xs)"
proof (induction i xs rule: outerLoop.induct)
  case (1 i xs)
  show ?case
  proof (cases "i + 1 < length xs")
    case True
    then have c: "int i < int (length xs) - 1" by simp
    have "dominated (length (innerLoop i (i + 1) xs)) (outerLoop (i + 1) (innerLoop i (i + 1) xs))"
      using "1.prems" True by (intro "1.IH" [OF c] dominated_innerLoop)
    with True show ?thesis by (simp add: outerLoop_step)
  next
    case False
    have "dominated (length xs) xs"
      unfolding dominated_def
    proof (intro allI impI)
      fix a b assume "a < length xs \<and> a < b \<and> b < length xs"
      with False have "a < i \<and> a < b \<and> b < length xs" by simp
      with "1.prems" show "Score (xs ! b) \<le> Score (xs ! a)" by (simp add: dominated_def)
    qed
    with False show ?thesis by (simp add: outerLoop_exit)
  qed
qed

lemma sortedByScoreDesc_outerLoop: "sortedByScoreDesc (outerLoop 0 xs)"
proof -
  have "dominated 0 xs" by (simp add: dominated_def)
  then have "dominated (length xs) (outerLoop 0 xs)" by (rule dominated_outerLoop)
  then show ?thesis
    by (simp add: sortedByScoreDesc_def sorted_wrt_iff_nth_less dominated_def)
qed

lemma innerLoop_sorted_id:
  "i < j \<Longrightarrow> sortedByScoreDesc xs \<Longrightarrow> innerLoop i j xs = xs"
proof (induction i j xs rule: innerLoop.induct)
  case (1 i j xs)
  show ?case
  proof (cases "j < length xs")
    case False
    then show ?thesis by (simp add: innerLoop_exit)
  next
    case True
    with "1.prems" have "Score (xs ! j) \<le> Score (xs ! i)"
      by (simp add: sortedByScoreDesc_def sorted_wrt_iff_nth_less)
    then have "\<not> Score (xs ! i) < Score (xs ! j)" by simp
    with "1.IH" [OF True] "1.prems" True show ?thesis by (simp add: innerLoop_step)
  qed
qed

lemma outerLoop_sorted_id: "sortedByScoreDesc xs \<Longrightarrow> outerLoop i xs = xs"
proof (induction i xs rule: outerLoop.induct)
  case (1 i xs)
  show ?case
  proof (cases "i + 1 < length xs")
    case False
    then show ?thesis by (simp add: outerLoop_exit)
  next
    case True
    then have c: "int i < int (length xs) - 1" by simp
    have "innerLoop i (i + 1) xs = xs" using "1.prems" by (simp add: innerLoop_sorted_id)
    with "1.IH" [OF c] "1.prems" True show ?thesis by (simp add: outerLoop_step)
  qed
qed

lemma filterAndRankResults_example:
  "filterAndRankResults exampleConfig
     [exampleResult ''a'' (3 / 4), exampleResult ''b'' (3 / 4), exampleResult ''c'' 1,
      exampleResult ''d'' (1 / 2)]
   = Inr [exampleResult ''c'' 1, exampleResult ''b'' (3 / 4), exampleResult ''a'' (3 / 4)]"
  by (simp add: filterAndRankResults_def exampleConfig_def exampleResult_def
        outerLoop.simps innerLoop.simps swap_def)

text \<open>
  Claim C4. With a limit \<open>MaxSearchResults\<close> that is not negative, \<open>filterAndRankResults\<close>
  returns for every input list, and what it returns is sorted by score in descending
  order, holds only results with a score at or above \<open>SimilarityThreshold\<close>, and is at
  most \<open>MaxSearchResults\<close> long. (With a negative limit the slice expression panics for
  every input: \<open>filterAndRankResults_negative_limit_panics\<close>.)
\<close>

theorem filterAndRankResults_sorted_filtered_bounded:
  assumes "0 \<le> MaxSearchResults cfg"
  shows "\<exists>out. filterAndRankResults cfg results = Inr out
           \<and> sortedByScoreDesc out
           \<and> (\<forall>r \<in> set out. Score r \<ge> SimilarityThreshold cfg)
           \<and> int (length out) \<le> MaxSearchResults cfg"
proof -
  define filtered where "filtered = filterLoop (SimilarityThreshold cfg) results []"
  define ranked where "ranked = outerLoop 0 filtered"
  define out where "out = (if int (length ranked) > MaxSearchResults cfg
                           then take (nat (MaxSearchResults cfg)) ranked else ranked)"
  have res: "filterAndRankResults cfg results = Inr out"
    using assms by (simp add: filterAndRankResults_def Let_def out_def ranked_def filtered_def)
  have sorted: "sortedByScoreDesc ranked"
    unfolding ranked_def by (rule sortedByScoreDesc_outerLoop)
  then have s: "sortedByScoreDesc out"
    by (simp add: out_def sortedByScoreDesc_def sorted_wrt_take)
  have "set ranked = set filtered"
    unfolding ranked_def by (rule mset_eq_setD) (rule mset_outerLoop)
  moreover have "set out \<subseteq> set ranked"
    by (auto simp: out_def dest: in_set_takeD)
  ultimately have t: "\<forall>r \<in> set out. Score r \<ge> SimilarityThreshold cfg"
    by (auto simp: filtered_def filterLoop_filter)
  have l: "int (length out) \<le> MaxSearchResults cfg"
    using assms by (simp add: out_def)
  from res s t l show ?thesis by blast
qed


theorem filterAndRankResults_sorted_filtered_bounded_witness:
  "sortedByScoreDesc [exampleResult ''c'' 1, exampleResult ''b'' (3 / 4), exampleResult ''a'' (3 / 4)]
   \<and> 7 / 10 \<le> Score (exampleResult ''a'' (3 / 4))
   \<and> int (length [exampleResult ''c'' 1, exampleResult ''b'' (3 / 4), exampleResult ''a'' (3 / 4)]) \<le> 10"
proof -
  have m: "0 \<le> MaxSearchResults exampleConfig"
    by (simp add: exampleConfig_def)
  from filterAndRankResults_sorted_filtered_bounded [OF m] obtain out where
    r: "filterAndRankResults exampleConfig
       [exampleResult ''a'' (3 / 4), exampleResult ''b'' (3 / 4), exampleResult ''c'' 1,
        exampleResult ''d'' (1 / 2)] = Inr out"
    and s: "sortedByScoreDesc out"
    and t: "\<forall>r \<in> set out. Score r \<ge> SimilarityThreshold exampleConfig"
    and l: "int (length out) \<le> MaxSearchResults exampleConfig"
    by blast
  from r have out: "out = [exampleResult ''c'' 1, exampleResult ''b'' (3 / 4), exampleResult ''a'' (3 / 4)]"
    by (simp add: filterAndRankResults_example)
  have "SimilarityThreshold exampleConfig \<le> Score (exampleResult ''a'' (3 / 4))"
    using t unfolding out by simp
  then have "7 / 10 \<le> Score (exampleResult ''a'' (3 / 4))"
    by (simp add: exampleConfig_def)
  moreover have "int (length out) \<le> 10"
    using l by (simp add: exampleConfig_def)
  ultimately show ?thesis
    using s unfolding out by simp
qed

lemma filterAndRankResults_negative_limit_panics:
  "MaxSearchResults cfg < 0 \<Longrightarrow> filterAndRankResults cfg results = Inl SliceBoundsOutOfRange"
  by (simp add: filterAndRankResults_def Let_def)


text \<open>
  Claim C5 as stated fails: the sort exchanges \<open>filtered[i]\<close> with a later, larger
  \<open>filtered[j]\<close>, which can carry a result past another one of the same score. The results
  \<open>a\<close> and \<open>b\<close> have the same score and pass the threshold; \<open>a\<close> comes first in the input
  and \<open>b\<close> comes first in the output.
\<close>

theorem filterAndRankResults_reorders_equal_scores:
  "filterAndRankResults exampleConfig
     [exampleResult ''a'' (3 / 4), exampleResult ''b'' (3 / 4), exampleResult ''c'' 1,
      exampleResult ''d'' (1 / 2)]
   = Inr [exampleResult ''c'' 1, exampleResult ''b'' (3 / 4), exampleResult ''a'' (3 / 4)]
   \<and> Score (exampleResult ''a'' (3 / 4)) = Score (exampleResult ''b'' (3 / 4))
   \<and> SimilarityThreshold exampleConfig \<le> Score (exampleResult ''a'' (3 / 4))"
  by (simp add: filterAndRankResults_example) (simp add: exampleResult_def exampleConfig_def)

text \<open>
  Claim C5, as amended. With a limit that is not negative, the output is the first
  \<open>MaxSearchResults\<close> elements of a list \<open>ranked\<close> that is a rearrangement of the results
  at or above the threshold, in descending order of score. The order among equal scores is
  the input's when the results at or above the threshold already stand in descending
  order: then \<open>ranked\<close> is that list itself.
\<close>

theorem filterAndRankResults_sorted_rearrangement:
  assumes "0 \<le> MaxSearchResults cfg"
  shows "\<exists>ranked. filterAndRankResults cfg results = Inr (take (nat (MaxSearchResults cfg)) ranked)
           \<and> mset ranked = mset (filter (\<lambda>r. Score r \<ge> SimilarityThreshold cfg) results)
           \<and> sortedByScoreDesc ranked
           \<and> (sortedByScoreDesc (filter (\<lambda>r. Score r \<ge> SimilarityThreshold cfg) results)
                \<longrightarrow> ranked = filter (\<lambda>r. Score r \<ge> SimilarityThreshold cfg) results)"
proof -
  define filtered where "filtered = filterLoop (SimilarityThreshold cfg) results []"
  define ranked where "ranked = outerLoop 0 filtered"
  have f: "filtered = filter (\<lambda>r. Score r \<ge> SimilarityThreshold cfg) results"
    by (simp add: filtered_def filterLoop_filter)
  have res: "filterAndRankResults cfg results = Inr (take (nat (MaxSearchResults cfg)) ranked)"
    using assms by (simp add: filterAndRankResults_def Let_def ranked_def filtered_def)
  have m: "mset ranked = mset filtered"
    unfolding ranked_def by (rule mset_outerLoop)
  have s: "sortedByScoreDesc ranked"
    unfolding ranked_def by (rule sortedByScoreDesc_outerLoop)
  have k: "sortedByScoreDesc filtered \<longrightarrow> ranked = filtered"
    by (simp add: ranked_def outerLoop_sorted_id)
  from res m s k show ?thesis unfolding f by blast
qed

theorem filterAndRankResults_sorted_rearrangement_witness:
  "filterAndRankResults exampleConfig
     [exampleResult ''c'' 1, exampleResult ''a'' (3 / 4), exampleResult ''b'' (3 / 4)]
   = Inr [exampleResult ''c'' 1, exampleResult ''a'' (3 / 4), exampleResult ''b'' (3 / 4)]"
proof -
  let ?rs = "[exampleResult ''c'' 1, exampleResult ''a'' (3 / 4), exampleResult ''b'' (3 / 4)]"
  have m: "0 \<le> MaxSearchResults exampleConfig"
    by (simp add: exampleConfig_def)
  have f: "filter (\<lambda>r. Score r \<ge> SimilarityThreshold exampleConfig) ?rs = ?rs"
    by (simp add: exampleConfig_def exampleResult_def)
  have s: "sortedByScoreDesc ?rs"
    by (simp add: sortedByScoreDesc_def exampleResult_def)
  from filterAndRankResults_sorted_rearrangement [OF m, of ?rs] s
  have "filterAndRankResults exampleConfig ?rs = Inr (take (nat (MaxSearchResults exampleConfig)) ?rs)"
    unfolding f by auto
  then show ?thesis
    by (simp add: exampleConfig_def)
qed

section \<open>Properties of the orchestrator and of the intake\<close>

lemma fallbackLoop_step:
  "\<not> i \<ge> 3 \<Longrightarrow>
     fallbackLoop i (result # rest) response = fallbackLoop (i + 1) rest (response @ bulletOf result)"
  by (simp add: Let_def bulletOf_def excerpt_def)

lemma fallbackLoop_stop: "i \<ge> 3 \<Longrightarrow> fallbackLoop i rs response = response"
  by (cases rs) simp_all

lemma fallbackLoop_bullets:
  "fallbackLoop i rs response = response @ concat (map bulletOf (take (3 - i) rs))"
proof (induction rs arbitrary: i response)
  case Nil
  then show ?case by simp
next
  case (Cons result rest)
  show ?case
  proof (cases "i \<ge> 3")
    case True
    then show ?thesis by (simp add: fallbackLoop_stop)
  next
    case False
    then have "3 - i = Suc (3 - (i + 1))" by arith
    then have t: "take (3 - i) (result # rest) = result # take (3 - (i + 1)) rest"
      by (simp only: take_Suc_Cons)
    show ?thesis
      unfolding fallbackLoop_step [OF False] t Cons.IH by simp
  qed
qed

lemma generateFallbackResponse_summary:
  "generateFallbackResponse searchResults = fallbackSummary searchResults"
  by (simp add: generateFallbackResponse_def fallbackSummary_def fallbackLoop_bullets Let_def)

lemma le_fold_max: "x \<in> set ids \<Longrightarrow> x \<le> fold max ids (a::nat)"
proof (induction ids arbitrary: a)
  case Nil
  then show ?case by simp
next
  case (Cons y ys)
  have mono: "b \<le> fold max ys b" for b :: nat
    by (induction ys arbitrary: b) (auto intro: order_trans [OF max.cobounded2])
  from Cons show ?case
  proof (cases "x = y")
    case True
    have "y \<le> max y a" by simp
    also have "\<dots> \<le> fold max ys (max y a)" by (rule mono)
    finally show ?thesis using True by simp
  next
    case False
    with Cons show ?thesis by simp
  qed
qed

lemma nextID_fresh: "x \<in> set ids \<Longrightarrow> x < nextID ids"
  using le_fold_max [of x ids 0] by (simp add: nextID_def)

lemma save_last_inquiry:
  assumes "\<forall>row \<in> set rows. ID row \<noteq> ID inquiry" and "ID old = ID inquiry"
  shows "map (\<lambda>row. if ID row = ID inquiry then inquiry else row) (rows @ [old]) = rows @ [inquiry]"
  using assms by (simp add: map_idI)

lemma save_last_event:
  assumes "\<forall>row \<in> set rows. evID row \<noteq> evID ev" and "evID old = evID ev"
  shows "map (\<lambda>row. if evID row = evID ev then ev else row) (rows @ [old]) = rows @ [ev]"
  using assms by (simp add: map_idI)

lemma dbSaveInquiry_last:
  assumes "ID inquiry = nextID (map ID rows)" and "ID old = ID inquiry"
  shows "dbSaveInquiry (db\<lparr>inquiries := rows @ [old]\<rparr>) inquiry = db\<lparr>inquiries := rows @ [inquiry]\<rparr>"
proof -
  have "\<forall>row \<in> set rows. ID row \<noteq> ID inquiry"
    using nextID_fresh [of _ "map ID rows"] assms(1) by fastforce
  then show ?thesis
    using assms(2) by (simp add: dbSaveInquiry_def save_last_inquiry del: map_append)
qed

lemma sendResponse_last:
  assumes "ID old = nextID (map ID rows)"
  shows "\<exists>sendErr tts.
           sendResponse env (db\<lparr>inquiries := rows @ [old]\<rparr>) old response
             = (sendErr, db\<lparr>inquiries := rows @ [old\<lparr>ThreadTimestamp := tts\<rparr>]\<rparr>,
                old\<lparr>ThreadTimestamp := tts\<rparr>)"
proof (cases "PostThreadReply env (ChannelID old) (Timestamp old)
                (robotFace @ '' *AI Assistant Response*'' @ [newline, newline] @ response)")
  case (Inl err)
  then have "sendResponse env (db\<lparr>inquiries := rows @ [old]\<rparr>) old response
      = (Some err, db\<lparr>inquiries := rows @ [old\<lparr>ThreadTimestamp := ThreadTimestamp old\<rparr>]\<rparr>,
         old\<lparr>ThreadTimestamp := ThreadTimestamp old\<rparr>)"
    by (simp add: sendResponse_def)
  then show ?thesis by blast
next
  case (Inr threadTS)
  have "dbSaveInquiry (db\<lparr>inquiries := rows @ [old]\<rparr>) (old\<lparr>ThreadTimestamp := threadTS\<rparr>)
          = db\<lparr>inquiries := rows @ [old\<lparr>ThreadTimestamp := threadTS\<rparr>]\<rparr>"
    using assms by (intro dbSaveInquiry_last) simp_all
  with Inr have "sendResponse env (db\<lparr>inquiries := rows @ [old]\<rparr>) old response
      = (None, db\<lparr>inquiries := rows @ [old\<lparr>ThreadTimestamp := threadTS\<rparr>]\<rparr>,
         old\<lparr>ThreadTimestamp := threadTS\<rparr>)"
    by (simp add: sendResponse_def Let_def)
  then show ?thesis by blast
qed

lemma ProcessInquiry_generation_failure_steps:
  assumes "dbCreateInquiry env db (newInquiry messageID channelID userID messageText timestamp)
             = Inr (db1, i1)"
    and "SearchAll env messageText (ID i1) = Inr searchResults"
    and "GenerateResponse env (i1\<lparr>Status := ''processing''\<rparr>) searchResults = Inl err"
    and "sendResponse env (dbSaveInquiry db1 (i1\<lparr>Status := ''processing''\<rparr>))
           (i1\<lparr>Status := ''processing''\<rparr>) (generateFallbackResponse searchResults)
           = (sendErr, db3, i3)"
  shows "ProcessInquiry env db messageID channelID userID messageText timestamp
           = (Some (Wrapped ''AI response generation failed'' err),
              dbSaveInquiry db3
                (i3\<lparr>Status := ''failed'', ResponseText := generateFallbackResponse searchResults\<rparr>))"
  using assms by (simp add: ProcessInquiry_def Let_def)


text \<open>
  Claim C7. The fallback text is the fixed message when there is no search result, and
  otherwise the heading, a bullet for each of the first three results (title, source,
  excerpt of at most 100 bytes of content, URL when there is one) and the closing line.
  When the inquiry row can be created and answer generation fails, \<open>ProcessInquiry\<close>
  returns the generation error and the inquiry row ends with status \<open>failed\<close> and the
  fallback text as \<open>ResponseText\<close>, whatever \<open>PostThreadReply\<close> answers.
\<close>

theorem ProcessInquiry_generation_failure_falls_back:
  assumes "\<not> storeFails env CreateInquiryCall"
    and "messageID \<notin> set (map MessageID (inquiries db))"
    and "SearchAll env messageText (nextID (map ID (inquiries db))) = Inr searchResults"
    and "GenerateResponse env
           ((newInquiry messageID channelID userID messageText timestamp)
              \<lparr>ID := nextID (map ID (inquiries db)), Status := ''processing''\<rparr>)
           searchResults = Inl err"
  shows "generateFallbackResponse searchResults = fallbackSummary searchResults
       \<and> (\<exists>db' inquiry.
             ProcessInquiry env db messageID channelID userID messageText timestamp
               = (Some (Wrapped ''AI response generation failed'' err), db')
           \<and> inquiries db' = inquiries db @ [inquiry]
           \<and> MessageID inquiry = messageID
           \<and> Status inquiry = ''failed''
           \<and> ResponseText inquiry = generateFallbackResponse searchResults)"
proof
  show "generateFallbackResponse searchResults = fallbackSummary searchResults"
    by (rule generateFallbackResponse_summary)
next
  define fresh where "fresh = nextID (map ID (inquiries db))"
  define i1 where "i1 = (newInquiry messageID channelID userID messageText timestamp)\<lparr>ID := fresh\<rparr>"
  define i2 where "i2 = i1\<lparr>Status := ''processing''\<rparr>"
  define fb where "fb = generateFallbackResponse searchResults"
  let ?db = "\<lambda>i. db\<lparr>inquiries := inquiries db @ [i]\<rparr>"
  have create: "dbCreateInquiry env db (newInquiry messageID channelID userID messageText timestamp)
                  = Inr (?db i1, i1)"
    using assms(1,2) by (simp add: dbCreateInquiry_def newInquiry_def i1_def fresh_def Let_def)
  have save2: "dbSaveInquiry (?db i1) i2 = ?db i2"
    by (intro dbSaveInquiry_last) (simp_all add: i2_def i1_def fresh_def)
  have id1: "ID i1 = fresh" by (simp add: i1_def)
  have id2: "ID i2 = fresh" by (simp add: i2_def i1_def)
  have search: "SearchAll env messageText (ID i1) = Inr searchResults"
    using assms(3) by (simp add: id1 fresh_def)
  have gen: "GenerateResponse env i2 searchResults = Inl err"
    using assms(4) by (simp add: i2_def i1_def fresh_def)
  obtain sendErr tts where
    send: "sendResponse env (?db i2) i2 fb
             = (sendErr, ?db (i2\<lparr>ThreadTimestamp := tts\<rparr>), i2\<lparr>ThreadTimestamp := tts\<rparr>)"
    using sendResponse_last [of i2 "inquiries db" env db fb] id2 by (auto simp: fresh_def)
  define i3 where "i3 = i2\<lparr>ThreadTimestamp := tts\<rparr>"
  define i4 where "i4 = i3\<lparr>Status := ''failed'', ResponseText := fb\<rparr>"
  have save4: "dbSaveInquiry (?db i3) i4 = ?db i4"
    by (intro dbSaveInquiry_last) (simp_all add: i4_def i3_def id2 fresh_def)
  have send': "sendResponse env (dbSaveInquiry (?db i1) (i1\<lparr>Status := ''processing''\<rparr>))
                 (i1\<lparr>Status := ''processing''\<rparr>) (generateFallbackResponse searchResults)
                 = (sendErr, ?db i3, i3)"
    using send save2 by (simp only: i2_def [symmetric] fb_def [symmetric] i3_def [symmetric])
  have run: "ProcessInquiry env db messageID channelID userID messageText timestamp
               = (Some (Wrapped ''AI response generation failed'' err), ?db i4)"
    using ProcessInquiry_generation_failure_steps [OF create search gen [unfolded i2_def] send']
    by (simp only: fb_def [symmetric] i4_def [symmetric] save4)
  have "MessageID i4 = messageID" "Status i4 = ''failed''" "ResponseText i4 = fb"
    by (simp_all add: i4_def i3_def i2_def i1_def newInquiry_def)
  with run show "\<exists>db' inquiry.
             ProcessInquiry env db messageID channelID userID messageText timestamp
               = (Some (Wrapped ''AI response generation failed'' err), db')
           \<and> inquiries db' = inquiries db @ [inquiry]
           \<and> MessageID inquiry = messageID
           \<and> Status inquiry = ''failed''
           \<and> ResponseText inquiry = generateFallbackResponse searchResults"
    unfolding fb_def by (intro exI [of _ "?db i4"] exI [of _ i4]) simp
qed

theorem ProcessInquiry_generation_failure_falls_back_witness:
  "generateFallbackResponse [] = noInformationMessage
   \<and> (\<exists>db' inquiry.
         ProcessInquiry exampleEnv emptyDB ''1700000000.000100'' ''C1'' ''U2''
             ''How to deploy service'' ''1700000000.000100''
           = (Some (Wrapped ''AI response generation failed''
                      (CollaboratorError ''rate limit exceeded'')), db')
       \<and> inquiries db' = [inquiry]
       \<and> Status inquiry = ''failed''
       \<and> ResponseText inquiry = noInformationMessage)"
proof -
  have f: "generateFallbackResponse [] = noInformationMessage"
    by (simp add: generateFallbackResponse_def)
  have "\<not> storeFails exampleEnv CreateInquiryCall"
    and "''1700000000.000100'' \<notin> set (map MessageID (inquiries emptyDB))"
    and "SearchAll exampleEnv ''How to deploy service'' (nextID (map ID (inquiries emptyDB))) = Inr []"
    and "GenerateResponse exampleEnv
           ((newInquiry ''1700000000.000100'' ''C1'' ''U2'' ''How to deploy service''
               ''1700000000.000100'')
              \<lparr>ID := nextID (map ID (inquiries emptyDB)), Status := ''processing''\<rparr>)
           [] = Inl (CollaboratorError ''rate limit exceeded'')"
    by (simp_all add: exampleEnv_def emptyDB_def)
  from ProcessInquiry_generation_failure_falls_back [OF this]
  show ?thesis
    unfolding f by (simp add: emptyDB_def) blast
qed

lemma ProcessInquiry_reaction_events:
  "reaction_events (snd (ProcessInquiry env db messageID channelID userID messageText timestamp))
     = reaction_events db"
  by (auto simp: ProcessInquiry_def dbCreateInquiry_def dbSaveInquiry_def sendResponse_def Let_def
           split: sum.splits option.splits prod.splits if_splits)

lemma reaction_events_dbSave:
  assumes "reaction_events d = rows @ [old]"
    and "evID ev = nextID (map evID rows)" and "evID old = evID ev"
  shows "reaction_events (dbSaveReactionEvent d ev) = rows @ [ev]"
proof -
  have "\<forall>row \<in> set rows. evID row \<noteq> evID ev"
    using nextID_fresh [of _ "map evID rows"] assms(2) by fastforce
  then show ?thesis
    using assms(1,3) by (simp add: dbSaveReactionEvent_def save_last_event del: map_append)
qed

lemma inquiries_dbSaveReactionEvent [simp]:
  "inquiries (dbSaveReactionEvent d ev) = inquiries d"
  by (simp add: dbSaveReactionEvent_def)

lemma find_unique:
  "distinct (map f xs) \<Longrightarrow> x \<in> set xs \<Longrightarrow> find (\<lambda>y. f y = f x) xs = Some x"
  by (induction xs) (auto simp: image_iff)

lemma count_unique:
  "distinct (map f xs) \<Longrightarrow> x \<in> set xs \<Longrightarrow> length (filter (\<lambda>y. f y = f x) xs) = 1"
  by (induction xs) (auto simp: image_iff filter_empty_conv)

lemma find_none: "k \<notin> set (map f xs) \<Longrightarrow> find (\<lambda>y. f y = k) xs = None"
  by (induction xs) auto

lemma create_event:
  assumes "\<not> storeFails env CreateReactionEventCall"
  shows "dbCreateReactionEvent env db (rawEvent 0 m c u r e t)
           = Inr (db\<lparr>reaction_events := reaction_events db
                       @ [rawEvent (nextID (map evID (reaction_events db))) m c u r e t]\<rparr>,
                  rawEvent (nextID (map evID (reaction_events db))) m c u r e t)"
  using assms by (simp add: dbCreateReactionEvent_def rawEvent_def Let_def)

lemma ProcessReactionEvent_trigger:
  assumes "reaction = TriggerEmoji cfg" and "eventType = ''added''"
  shows "ProcessReactionEvent cfg env db messageID channelID userID reaction eventType timestamp =
     (case dbCreateReactionEvent env db (rawEvent 0 messageID channelID userID reaction eventType timestamp) of
        Inl err \<Rightarrow> (Some err, db)
      | Inr (db, reactionEvent) \<Rightarrow>
          (case dbFirstInquiry env FirstInquiryCall db messageID of
             Inr existingInquiry \<Rightarrow>
               (None, dbSaveReactionEvent db
                        (reactionEvent\<lparr>Processed := True, InquiryID := Some (ID existingInquiry)\<rparr>))
           | Inl notFound \<Rightarrow>
               (case GetMessage env channelID messageID of
                  Inl err \<Rightarrow> (Some err, db)
                | Inr slackMessage \<Rightarrow>
                    if smText slackMessage = [] then (Some EmptySlackMessage, db)
                    else
                      (case ProcessInquiry env db messageID channelID (smUser slackMessage)
                              (smText slackMessage) (smTimestamp slackMessage) of
                         (Some err, db) \<Rightarrow> (Some err, db)
                       | (None, db) \<Rightarrow>
                           (case dbFirstInquiry env GetInquiryByMessageIDCall db messageID of
                              Inr inquiry \<Rightarrow>
                                (None, dbSaveReactionEvent db
                                         (reactionEvent\<lparr>Processed := True,
                                                        InquiryID := Some (ID inquiry)\<rparr>))
                            | Inl err \<Rightarrow> (None, db))))))"
  using assms
  by (simp add: ProcessReactionEvent_def rawEvent_def Let_def
           cong: sum.case_cong prod.case_cong option.case_cong if_cong)


lemma dbCreateInquiry_keeps_unique:
  assumes "uniqueMessageIDs db" and "dbCreateInquiry env db inquiry = Inr (db', inquiry')"
  shows "uniqueMessageIDs db'"
  using assms
  by (auto simp: uniqueMessageIDs_def dbCreateInquiry_def Let_def split: if_splits)

text \<open>
  Claim C1. Let the store hold an Inquiry row for the message (its \<open>message_id\<close> column being
  unique), and let an \<open>added\<close> event with the trigger emoji arrive for that message, the
  store accepting the insert of the event and answering the lookup. Then
  \<open>ProcessReactionEvent\<close> returns without error, the Inquiry table is unchanged and holds
  exactly one row for the message, and the event's row is stored with \<open>processed = true\<close>
  and the key of that inquiry.
\<close>

theorem ProcessReactionEvent_duplicate_links_existing_inquiry:
  assumes "reaction = TriggerEmoji cfg" and "eventType = ''added''"
    and "\<not> storeFails env CreateReactionEventCall" and "\<not> storeFails env FirstInquiryCall"
    and "uniqueMessageIDs db"
    and "existing \<in> set (inquiries db)" and "MessageID existing = messageID"
  shows "\<exists>db' ev.
           ProcessReactionEvent cfg env db messageID channelID userID reaction eventType timestamp
             = (None, db')
         \<and> inquiries db' = inquiries db
         \<and> length (filter (\<lambda>row. MessageID row = messageID) (inquiries db')) = 1
         \<and> reaction_events db' = reaction_events db @ [ev]
         \<and> evMessageID ev = messageID \<and> Reaction ev = reaction \<and> EventType ev = eventType
         \<and> Processed ev = True
         \<and> InquiryID ev = Some (ID existing)"
proof -
  define key where "key = nextID (map evID (reaction_events db))"
  define ev1 where "ev1 = rawEvent key messageID channelID userID reaction eventType timestamp"
  define db1 where "db1 = db\<lparr>reaction_events := reaction_events db @ [ev1]\<rparr>"
  define ev2 where "ev2 = ev1\<lparr>Processed := True, InquiryID := Some (ID existing)\<rparr>"
  have create: "dbCreateReactionEvent env db
                  (rawEvent 0 messageID channelID userID reaction eventType timestamp) = Inr (db1, ev1)"
    unfolding db1_def ev1_def key_def by (rule create_event [OF assms(3)])
  have "find (\<lambda>row. MessageID row = MessageID existing) (inquiries db) = Some existing"
    using assms(5,6) unfolding uniqueMessageIDs_def by (rule find_unique)
  then have first: "dbFirstInquiry env FirstInquiryCall db1 messageID = Inr existing"
    using assms(4,7) by (simp add: dbFirstInquiry_def db1_def)
  have run: "ProcessReactionEvent cfg env db messageID channelID userID reaction eventType timestamp
               = (None, dbSaveReactionEvent db1 ev2)"
    unfolding ProcessReactionEvent_trigger [OF assms(1,2)] create
    by (simp add: first ev2_def)
  have rows: "reaction_events (dbSaveReactionEvent db1 ev2) = reaction_events db @ [ev2]"
    by (rule reaction_events_dbSave [where old = ev1])
       (simp_all add: db1_def ev2_def ev1_def rawEvent_def key_def)
  have inq: "inquiries (dbSaveReactionEvent db1 ev2) = inquiries db"
    by (simp add: db1_def)
  have one: "length (filter (\<lambda>row. MessageID row = messageID) (inquiries db)) = 1"
    using count_unique [of MessageID "inquiries db" existing] assms(5,6,7)
    by (simp add: uniqueMessageIDs_def)
  have fields: "evMessageID ev2 = messageID" "Reaction ev2 = reaction" "EventType ev2 = eventType"
    "Processed ev2 = True" "InquiryID ev2 = Some (ID existing)"
    by (simp_all add: ev2_def ev1_def rawEvent_def)
  from run rows inq one fields show ?thesis
    by (intro exI [of _ "dbSaveReactionEvent db1 ev2"] exI [of _ ev2]) simp
qed


theorem ProcessReactionEvent_duplicate_links_existing_inquiry_witness:
  "\<exists>db' ev.
     ProcessReactionEvent exampleConfig exampleEnv exampleDB ''1700000000.000100'' ''C1'' ''U3''
         ''eyes'' ''added'' ''1700000050.000000''
       = (None, db')
   \<and> inquiries db' = inquiries exampleDB
   \<and> length (filter (\<lambda>row. MessageID row = ''1700000000.000100'') (inquiries db')) = 1
   \<and> reaction_events db' = [ev]
   \<and> Processed ev = True
   \<and> InquiryID ev = Some 1"
proof -
  let ?existing = "(newInquiry ''1700000000.000100'' ''C1'' ''U2'' ''How to deploy service''
            ''1700000000.000100'')\<lparr>ID := 1, Status := ''completed''\<rparr>"
  have "''eyes'' = TriggerEmoji exampleConfig" and "''added'' = ''added''"
    and "\<not> storeFails exampleEnv CreateReactionEventCall"
    and "\<not> storeFails exampleEnv FirstInquiryCall"
    and "uniqueMessageIDs exampleDB"
    and "?existing \<in> set (inquiries exampleDB)"
    and "MessageID ?existing = ''1700000000.000100''"
    by (simp_all add: exampleConfig_def exampleEnv_def exampleDB_def uniqueMessageIDs_def
          newInquiry_def)
  from ProcessReactionEvent_duplicate_links_existing_inquiry
         [OF this, of "''C1''" "''U3''" "''1700000050.000000''"]
  show ?thesis
    by (simp add: exampleDB_def) blast
qed

text \<open>
  Claim C9. For an \<open>added\<close> trigger event on a message that has no Inquiry row, when the
  fetched message has an empty text, \<open>ProcessReactionEvent\<close> returns the error
  \<open>empty Slack message\<close> and the Inquiry table is as it was.
\<close>

theorem ProcessReactionEvent_empty_message_creates_no_inquiry:
  assumes "reaction = TriggerEmoji cfg" and "eventType = ''added''"
    and "\<not> storeFails env CreateReactionEventCall"
    and "messageID \<notin> set (map MessageID (inquiries db))"
    and "GetMessage env channelID messageID = Inr slackMessage"
    and "smText slackMessage = []"
  shows "\<exists>db'.
           ProcessReactionEvent cfg env db messageID channelID userID reaction eventType timestamp
             = (Some EmptySlackMessage, db')
         \<and> inquiries db' = inquiries db"
proof -
  define key where "key = nextID (map evID (reaction_events db))"
  define ev1 where "ev1 = rawEvent key messageID channelID userID reaction eventType timestamp"
  define db1 where "db1 = db\<lparr>reaction_events := reaction_events db @ [ev1]\<rparr>"
  have create: "dbCreateReactionEvent env db
                  (rawEvent 0 messageID channelID userID reaction eventType timestamp) = Inr (db1, ev1)"
    unfolding db1_def ev1_def key_def by (rule create_event [OF assms(3)])
  have "find (\<lambda>row. MessageID row = messageID) (inquiries db1) = None"
    using assms(4) by (simp add: db1_def find_none)
  then obtain e where first: "dbFirstInquiry env FirstInquiryCall db1 messageID = Inl e"
    by (cases "storeFails env FirstInquiryCall") (simp_all add: dbFirstInquiry_def)
  have "ProcessReactionEvent cfg env db messageID channelID userID reaction eventType timestamp
               = (Some EmptySlackMessage, db1)"
    unfolding ProcessReactionEvent_trigger [OF assms(1,2)] create
    by (simp add: first assms(5,6))
  moreover have "inquiries db1 = inquiries db" by (simp add: db1_def)
  ultimately show ?thesis by blast
qed


theorem ProcessReactionEvent_empty_message_creates_no_inquiry_witness:
  "\<exists>db'.
     ProcessReactionEvent exampleConfig emptyMessageEnv emptyDB ''1700000000.000100'' ''C1'' ''U3''
         ''eyes'' ''added'' ''1700000050.000000''
       = (Some EmptySlackMessage, db')
   \<and> inquiries db' = []"
proof -
  have "''eyes'' = TriggerEmoji exampleConfig" and "''added'' = ''added''"
    and "\<not> storeFails emptyMessageEnv CreateReactionEventCall"
    and "''1700000000.000100'' \<notin> set (map MessageID (inquiries emptyDB))"
    and "GetMessage emptyMessageEnv ''C1'' ''1700000000.000100''
           = Inr \<lparr>smID = ''1700000000.000100'', smChannel = ''C1'', smUser = ''U2'',
                  smText = [], smTimestamp = ''1700000000.000100'', smThreadTS = []\<rparr>"
    and "smText \<lparr>smID = ''1700000000.000100'', smChannel = ''C1'', smUser = ''U2'',
                  smText = [], smTimestamp = ''1700000000.000100'', smThreadTS = []\<rparr> = []"
    by (simp_all add: exampleConfig_def emptyMessageEnv_def exampleEnv_def emptyDB_def)
  from ProcessReactionEvent_empty_message_creates_no_inquiry
         [OF this, of "''U3''" "''1700000050.000000''"]
  show ?thesis
    by (simp add: emptyDB_def)
qed

text \<open>
  Claim C8 as stated fails: the first statement of \<open>ProcessReactionEvent\<close> returns for
  every event that is not the trigger emoji being added, before anything is recorded. An
  \<open>added\<close> event with the emoji \<open>thumbsup\<close> (the trigger being \<open>eyes\<close>) leaves the
  table of reaction events empty.
\<close>

theorem ProcessReactionEvent_ignores_other_emoji:
  "ProcessReactionEvent exampleConfig exampleEnv emptyDB ''1700000000.000100'' ''C1'' ''U3''
       ''thumbsup'' ''added'' ''1700000050.000000''
     = (None, emptyDB)
   \<and> reaction_events emptyDB = []"
  by (simp add: ProcessReactionEvent_def exampleConfig_def emptyDB_def)

text \<open>The same guard returns for a \<open>removed\<close> event, trigger emoji or not.\<close>

lemma ProcessReactionEvent_ignores_removed:
  "eventType \<noteq> ''added'' \<Longrightarrow>
     ProcessReactionEvent cfg env db messageID channelID userID reaction eventType timestamp
       = (None, db)"
  by (simp add: ProcessReactionEvent_def)

text \<open>
  Claim C8, as amended. For every \<open>added\<close> event with the trigger emoji, when the store
  accepts the insert, the table of reaction events holds one more row when
  \<open>ProcessReactionEvent\<close> returns, on every path (duplicate, failed fetch, empty message,
  failed or finished pipeline), and that row carries the raw event. An event with another
  emoji returns success and leaves the store as it was.
\<close>

theorem ProcessReactionEvent_records_trigger_events:
  "(reaction = TriggerEmoji cfg \<and> eventType = ''added'' \<and> \<not> storeFails env CreateReactionEventCall
      \<longrightarrow> (\<exists>ev. reaction_events (snd (ProcessReactionEvent cfg env db messageID channelID userID
                                          reaction eventType timestamp))
                  = reaction_events db @ [ev]
              \<and> evMessageID ev = messageID \<and> evChannelID ev = channelID \<and> evUserID ev = userID
              \<and> Reaction ev = reaction \<and> EventType ev = eventType \<and> evTimestamp ev = timestamp))
   \<and> (reaction \<noteq> TriggerEmoji cfg
      \<longrightarrow> ProcessReactionEvent cfg env db messageID channelID userID reaction eventType timestamp
            = (None, db))"
proof (intro conjI impI)
  assume "reaction \<noteq> TriggerEmoji cfg"
  then show "ProcessReactionEvent cfg env db messageID channelID userID reaction eventType timestamp
            = (None, db)"
    by (simp add: ProcessReactionEvent_def)
next
  assume a: "reaction = TriggerEmoji cfg \<and> eventType = ''added'' \<and> \<not> storeFails env CreateReactionEventCall"
  define key where "key = nextID (map evID (reaction_events db))"
  define ev1 where "ev1 = rawEvent key messageID channelID userID reaction eventType timestamp"
  define db1 where "db1 = db\<lparr>reaction_events := reaction_events db @ [ev1]\<rparr>"
  let ?P = "\<lambda>d. \<exists>ev. reaction_events d = reaction_events db @ [ev]
              \<and> evMessageID ev = messageID \<and> evChannelID ev = channelID \<and> evUserID ev = userID
              \<and> Reaction ev = reaction \<and> EventType ev = eventType \<and> evTimestamp ev = timestamp"
  have create: "dbCreateReactionEvent env db
                  (rawEvent 0 messageID channelID userID reaction eventType timestamp) = Inr (db1, ev1)"
    unfolding db1_def ev1_def key_def using a by (intro create_event) simp
  have P1: "?P d" if "reaction_events d = reaction_events db @ [ev1]" for d
    using that by (intro exI [of _ ev1]) (simp add: ev1_def rawEvent_def)
  have P2: "?P (dbSaveReactionEvent d (ev1\<lparr>Processed := True, InquiryID := Some k\<rparr>))"
    if "reaction_events d = reaction_events db @ [ev1]" for d k
  proof -
    have "reaction_events (dbSaveReactionEvent d (ev1\<lparr>Processed := True, InquiryID := Some k\<rparr>))
            = reaction_events db @ [ev1\<lparr>Processed := True, InquiryID := Some k\<rparr>]"
      using that by (rule reaction_events_dbSave) (simp_all add: ev1_def rawEvent_def key_def)
    then show ?thesis
      by (intro exI [of _ "ev1\<lparr>Processed := True, InquiryID := Some k\<rparr>"])
         (simp add: ev1_def rawEvent_def)
  qed
  have r1: "reaction_events db1 = reaction_events db @ [ev1]" by (simp add: db1_def)
  have r2: "reaction_events (snd (ProcessInquiry env db1 m c u x t)) = reaction_events db @ [ev1]"
    for m c u x t
    by (simp add: ProcessInquiry_reaction_events r1)
  show "?P (snd (ProcessReactionEvent cfg env db messageID channelID userID reaction eventType timestamp))"
  proof -
    have eq: "ProcessReactionEvent cfg env db messageID channelID userID reaction eventType timestamp =
      (case dbFirstInquiry env FirstInquiryCall db1 messageID of
             Inr existingInquiry \<Rightarrow>
               (None, dbSaveReactionEvent db1
                        (ev1\<lparr>Processed := True, InquiryID := Some (ID existingInquiry)\<rparr>))
           | Inl notFound \<Rightarrow>
               (case GetMessage env channelID messageID of
                  Inl err \<Rightarrow> (Some err, db1)
                | Inr slackMessage \<Rightarrow>
                    if smText slackMessage = [] then (Some EmptySlackMessage, db1)
                    else
                      (case ProcessInquiry env db1 messageID channelID (smUser slackMessage)
                              (smText slackMessage) (smTimestamp slackMessage) of
                         (Some err, db) \<Rightarrow> (Some err, db)
                       | (None, db) \<Rightarrow>
                           (case dbFirstInquiry env GetInquiryByMessageIDCall db messageID of
                              Inr inquiry \<Rightarrow>
                                (None, dbSaveReactionEvent db
                                         (ev1\<lparr>Processed := True,
                                                        InquiryID := Some (ID inquiry)\<rparr>))
                            | Inl err \<Rightarrow> (None, db)))))"
      unfolding ProcessReactionEvent_trigger [OF a [THEN conjunct1] a [THEN conjunct2, THEN conjunct1]]
        create
      by simp
    show ?thesis
    proof (cases "dbFirstInquiry env FirstInquiryCall db1 messageID")
      case (Inr existingInquiry)
      then show ?thesis unfolding eq using P2 [OF r1] by simp
    next
      case (Inl notFound)
      show ?thesis
      proof (cases "GetMessage env channelID messageID")
        case (Inl err)
        with \<open>dbFirstInquiry env FirstInquiryCall db1 messageID = Inl notFound\<close> show ?thesis
          unfolding eq using P1 [OF r1] by simp
      next
        case (Inr slackMessage)
        note gm = this
        show ?thesis
        proof (cases "smText slackMessage = []")
          case True
          with gm \<open>dbFirstInquiry env FirstInquiryCall db1 messageID = Inl notFound\<close> show ?thesis
            unfolding eq using P1 [OF r1] by simp
        next
          case False
          obtain perr db2 where pi: "ProcessInquiry env db1 messageID channelID (smUser slackMessage)
                              (smText slackMessage) (smTimestamp slackMessage) = (perr, db2)"
            by (cases "ProcessInquiry env db1 messageID channelID (smUser slackMessage)
                              (smText slackMessage) (smTimestamp slackMessage)") auto
          have r3: "reaction_events db2 = reaction_events db @ [ev1]"
            using r2 [of messageID channelID "smUser slackMessage" "smText slackMessage"
                         "smTimestamp slackMessage"] pi by simp
          show ?thesis
            unfolding eq
            using False gm \<open>dbFirstInquiry env FirstInquiryCall db1 messageID = Inl notFound\<close>
              pi P1 [OF r3] P2 [OF r3]
            by (cases perr; cases "dbFirstInquiry env GetInquiryByMessageIDCall db2 messageID") simp_all
        qed
      qed
    qed
  qed
qed

theorem ProcessReactionEvent_records_trigger_events_witness:
  "(\<exists>ev. reaction_events
            (snd (ProcessReactionEvent exampleConfig exampleEnv exampleDB ''1700000000.000100''
                    ''C1'' ''U3'' ''eyes'' ''added'' ''1700000050.000000''))
          = [ev]
        \<and> evMessageID ev = ''1700000000.000100'' \<and> evUserID ev = ''U3''
        \<and> Reaction ev = ''eyes'' \<and> EventType ev = ''added'')
   \<and> ProcessReactionEvent exampleConfig exampleEnv exampleDB ''1700000000.000100''
         ''C1'' ''U3'' ''thumbsup'' ''added'' ''1700000050.000000''
       = (None, exampleDB)"
proof -
  have a: "''eyes'' = TriggerEmoji exampleConfig \<and> ''added'' = ''added''
             \<and> \<not> storeFails exampleEnv CreateReactionEventCall"
    by (simp add: exampleConfig_def exampleEnv_def)
  have b: "''thumbsup'' \<noteq> TriggerEmoji exampleConfig"
    by (simp add: exampleConfig_def)
  have e: "reaction_events exampleDB = []"
    by (simp add: exampleDB_def)
  from ProcessReactionEvent_records_trigger_events
         [of "''eyes''" exampleConfig "''added''" exampleEnv exampleDB "''1700000000.000100''"
             "''C1''" "''U3''" "''1700000050.000000''"] a
  have first: "\<exists>ev. reaction_events
            (snd (ProcessReactionEvent exampleConfig exampleEnv exampleDB ''1700000000.000100''
                    ''C1'' ''U3'' ''eyes'' ''added'' ''1700000050.000000''))
          = [ev]
        \<and> evMessageID ev = ''1700000000.000100'' \<and> evUserID ev = ''U3''
        \<and> Reaction ev = ''eyes'' \<and> EventType ev = ''added''"
    unfolding e by auto
  from ProcessReactionEvent_records_trigger_events
         [of "''thumbsup''" exampleConfig "''added''" exampleEnv exampleDB "''1700000000.000100''"
             "''C1''" "''U3''" "''1700000050.000000''"] b
  have second: "ProcessReactionEvent exampleConfig exampleEnv exampleDB ''1700000000.000100''
         ''C1'' ''U3'' ''thumbsup'' ''added'' ''1700000050.000000''
       = (None, exampleDB)"
    by blast
  from first second show ?thesis by blast
qed

end
